theory Spec2Isabelle
  imports Main "HOL-Library.Word" "HOL-Library.Multiset"
begin

unbundle bit_operations_syntax

section \<open>Junctions.c: wall junctions and white shading pieces\<close>

text \<open>
  A shallow embedding of \<^verbatim>\<open>src/arch/Junctions_annotated.c\<close>.

  Conventions of the embedding.
  \<^item> The C \<^verbatim>\<open>int\<close> coordinates, heights and offsets are HOL integers. The program keeps
    them far inside the 16-bit range (world coordinates lie below the sentinel 20000), so
    no arithmetic of the file wraps for the inputs it is written for.
  \<^item> A row of a bit pattern is a \<open>16 word\<close>; a screen long is a \<open>32 word\<close>.
  \<^item> The arrays \<^verbatim>\<open>whites\<close> and \<^verbatim>\<open>junctions\<close> are lists holding the entries in front of
    the sentinel; the sentinel record (x = 20000) that the program keeps behind the last entry
    is the end of the list, and \<^verbatim>\<open>numwhites\<close>, \<^verbatim>\<open>numjunctions\<close> are the lengths.
    Where a loop of the source is guarded by \<^verbatim>\<open>x < 20000\<close>, the model tests the same
    guard on the entries of the list. Where a loop compares the x of an entry with a bound
    computed from a piece or from \<^verbatim>\<open>worldwidth\<close>, it ends at the end of the list, which
    is what the sentinel does as long as that bound is at most 20000; the properties of
    \<^verbatim>\<open>white_hash_merge\<close> are therefore stated for \<^verbatim>\<open>worldwidth\<close> at most 20005.
  \<^item> The fields \<^verbatim>\<open>x\<close>, \<^verbatim>\<open>y\<close> of \<^verbatim>\<open>whiterec\<close> are \<open>wx\<close>, \<open>wy\<close>, those of
    \<^verbatim>\<open>junctionrec\<close> are \<open>jx\<close>, \<open>jy\<close>.
\<close>

subsection \<open>Bit patterns and white pieces\<close>

type_synonym row = "16 word"

text \<open>
  \<^verbatim>\<open>whiterec.data\<close> points either into one of the static pattern tables, which are never
  written after \<^verbatim>\<open>npatch\<close> is filled, or to a block of six rows in \<^verbatim>\<open>whitestorage\<close>.
  Every block of \<^verbatim>\<open>whitestorage\<close> is allocated for one piece and referenced by that piece
  only, so the pointer is modelled by its tag and the rows it points to.
\<close>

datatype whitedata = Static "row list" | Arena "row list"

fun rows_of :: "whitedata \<Rightarrow> row list" where
  "rows_of (Static rs) = rs"
| "rows_of (Arena rs) = rs"

record whiterec =
  wx :: int
  wy :: int
  hasj :: bool
  ht :: int
  data :: whitedata

text \<open>The static pattern tables, in the order of the source.\<close>

definition hash_figure :: "row list" where
  "hash_figure = [0x8000, 0x6000, 0x1800, 0x0600, 0x00180, 0x0040]"

definition neglitch :: "row list" where
  "neglitch = [0xEFFF, 0xCFFF, 0x8FFF, 0x0FFF]"

definition eneglitch1 :: "row list" where
  "eneglitch1 = [0x07FF, 0x1FFF, 0x7FFF]"

definition eneglitch2 :: "row list" where
  "eneglitch2 = [0xFF3F, 0xFC3F, 0xF03F, 0xC03F, 0x003F]"

definition eseglitch :: "row list" where
  "eseglitch = [0x3FFF, 0xCFFF, 0xF3FF, 0xFDFF]"

definition generictop :: "row list" where
  "generictop = [0xFFFF, 0x3FFF, 0x0FFF, 0x03FF, 0x00FF, 0x007F]"

definition nnebot :: "row list" where
  "nnebot = [0x800F, 0xC01F, 0xF01F, 0xFC3F, 0xFF3F, 0xFFFF]"

definition nebot :: "row list" where
  "nebot = [0x8001, 0xC003, 0xF007, 0xFC0F, 0xFF1F, 0xFFFF]"

definition eneleft :: "row list" where
  "eneleft = [0x8000, 0xC000, 0xF000, 0xFC01, 0xFF07, 0xFFDF]"

definition eleft :: "row list" where
  "eleft = [0xFFFF, 0xFFFF, 0xF000, 0xFC00, 0xFF00, 0xFF80]"

definition eseright :: "row list" where
  "eseright = [0xFFFF, 0x3FFF, 0x8FFF, 0xE3FF, 0xF8FF, 0xFE7F]"

definition setop :: "row list" where
  "setop = [0xFFFF, 0xFFFF, 0xEFFF, 0xF3FF, 0xF8FF, 0xFC3F]"

definition sebot :: "row list" where
  "sebot = [0x87FF, 0xC3FF, 0xF1FF, 0xFCFF, 0xFF7F, 0xFFFF]"

definition ssetop :: "row list" where
  "ssetop = [0xFFFF, 0xBFFF, 0xCFFF, 0xC3FF, 0xE0FF, 0xE03F]"

definition ssebot :: "row list" where
  "ssebot = [0x80FF, 0xC07F, 0xF07F, 0xFC3F, 0xFF3F, 0xFFFF]"

definition sbot :: "row list" where
  "sbot = [0x803F, 0xC03F, 0xF03F, 0xFC3F, 0xFF3F, 0xFFFF]"

text \<open>\<^verbatim>\<open>npatch\<close> as \<^verbatim>\<open>close_whites\<close> fills it before any piece refers to it.\<close>

definition npatch :: "row list" where
  "npatch = replicate 22 0x003F"

definition nepatch :: "row list" where
  "nepatch = [0xE000, 0xC001, 0x8003, 0x0007]"

definition add_white ::
  "int \<Rightarrow> int \<Rightarrow> int \<Rightarrow> whitedata \<Rightarrow> whiterec list \<Rightarrow> whiterec list" where
  "add_white x y h d ws = ws @ [\<lparr>wx = x, wy = y, hasj = False, ht = h, data = d\<rparr>]"

text \<open>
  \<^verbatim>\<open>replace_white_2\<close>: the scan stops at the first piece with the target coordinates and a
  height below \<open>h\<close>; when the scan reaches \<^verbatim>\<open>whites + numwhites\<close> the function returns.
\<close>

fun replace_white_2 ::
  "int \<Rightarrow> int \<Rightarrow> int \<Rightarrow> int \<Rightarrow> int \<Rightarrow> whitedata \<Rightarrow> whiterec list \<Rightarrow> whiterec list" where
  "replace_white_2 targetx targety x y h d [] = []"
| "replace_white_2 targetx targety x y h d (w # ws) =
     (if wy w \<noteq> targety \<or> wx w \<noteq> targetx \<or> ht w \<ge> h
      then w # replace_white_2 targetx targety x y h d ws
      else w\<lparr>wx := x, wy := y, ht := h, data := d\<rparr> # ws)"

definition replace_white ::
  "int \<Rightarrow> int \<Rightarrow> int \<Rightarrow> whitedata \<Rightarrow> whiterec list \<Rightarrow> whiterec list" where
  "replace_white x y h d ws = replace_white_2 x y x y h d ws"

definition add_white_2 ::
  "int \<Rightarrow> int \<Rightarrow> int \<Rightarrow> int \<Rightarrow> int \<Rightarrow> whitedata \<Rightarrow> whiterec list \<Rightarrow> whiterec list" where
  "add_white_2 dummyx dummyy x y h d ws = add_white x y h d ws"

subsection \<open>The merge loop of \<^verbatim>\<open>init_whites\<close>\<close>

text \<open>The six rows \<^verbatim>\<open>newdata[i] = wh->data[i] & (wh+1)->data[i]\<close>.\<close>

definition and_rows :: "whitedata \<Rightarrow> whitedata \<Rightarrow> row list" where
  "and_rows a b = map (\<lambda>i. rows_of a ! i AND rows_of b ! i) [0..<6]"

text \<open>
  \<^verbatim>\<open>for (movewh = wh+1; movewh->x < 20000; movewh++) *movewh = movewh[1];\<close> applied to
  the entries from \<^verbatim>\<open>wh+1\<close> on: every slot in front of the first entry with x at least
  20000 receives its successor; the slot that receives the sentinel ends the list.
\<close>

fun shift_from :: "whiterec list \<Rightarrow> whiterec list" where
  "shift_from [] = []"
| "shift_from [r] = (if wx r < 20000 then [] else [r])"
| "shift_from (r # r' # rest) =
     (if wx r < 20000 then r' # shift_from (r' # rest) else r # r' # rest)"

lemma shift_from_takeWhile:
  "wx r < 20000 \<Longrightarrow>
   length (takeWhile (\<lambda>r. wx r < 20000) (shift_from (r # rest)))
     < length (takeWhile (\<lambda>r. wx r < 20000) (r # rest))"
  by (induction rest arbitrary: r) auto

text \<open>
  The condition of the inner \<^verbatim>\<open>while\<close>:
  \<^verbatim>\<open>wh->x == (wh+1)->x && wh->y == (wh+1)->y && wh->ht == 6 && (wh+1)->ht == 6\<close>.
\<close>

definition mergeable :: "whiterec \<Rightarrow> whiterec \<Rightarrow> bool" where
  "mergeable w w2 \<longleftrightarrow> wx w = wx w2 \<and> wy w = wy w2 \<and> ht w = 6 \<and> ht w2 = 6"

text \<open>
  The \<^verbatim>\<open>for\<close> loop over \<^verbatim>\<open>wh\<close> with its inner \<^verbatim>\<open>while\<close>; the second component is
  \<^verbatim>\<open>whitesused\<close>. The list is the array from \<^verbatim>\<open>wh\<close> on. A last entry in front of the
  sentinel is never merged: its x is below 20000, the sentinel's is not.
\<close>

function merge_whites :: "whiterec list \<Rightarrow> nat \<Rightarrow> whiterec list \<times> nat" where
  "merge_whites [] used = ([], used)"
| "merge_whites [w] used = ([w], used)"
| "merge_whites (w # w2 # rest) used =
     (if wx w < 20000 then
        (if mergeable w w2
         then merge_whites
                (w\<lparr>data := Arena (and_rows (data w) (data w2))\<rparr> # shift_from (w2 # rest))
                (used + 6)
         else (case merge_whites (w2 # rest) used of (ws', used') \<Rightarrow> (w # ws', used')))
      else (w # w2 # rest, used))"
  by pat_completeness auto
termination
proof (relation "measure (\<lambda>(ws, used). length (takeWhile (\<lambda>r. wx r < 20000) ws))")
  show "wf (measure (\<lambda>(ws, used :: nat). length (takeWhile (\<lambda>r. wx r < 20000) ws)))"
    by simp
next
  fix w w2 :: whiterec and rest and used :: nat
  assume a: "wx w < 20000" "mergeable w w2"
  then have "wx w2 < 20000" by (simp add: mergeable_def)
  from shift_from_takeWhile[OF this, of rest] a
  show "((w\<lparr>data := Arena (and_rows (data w) (data w2))\<rparr> # shift_from (w2 # rest), used + 6),
         w # w2 # rest, used)
        \<in> measure (\<lambda>(ws, used). length (takeWhile (\<lambda>r. wx r < 20000) ws))"
    by simp
next
  fix w w2 :: whiterec and rest and used :: nat
  assume "wx w < 20000"
  then show "((w2 # rest, used), w # w2 # rest, used)
       \<in> measure (\<lambda>(ws, used). length (takeWhile (\<lambda>r. wx r < 20000) ws))"
    by simp
qed

text \<open>
  Some two consecutive pieces of the list have equal (x, y) and both height 6: the merge
  pass would still combine them.
\<close>

fun adjacent_dup :: "whiterec list \<Rightarrow> bool" where
  "adjacent_dup (a # b # rest) \<longleftrightarrow> mergeable a b \<or> adjacent_dup (b # rest)"
| "adjacent_dup _ \<longleftrightarrow> False"

subsection \<open>Walls and junctions\<close>

text \<open>
  Modelled from the spec: the \<^verbatim>\<open>NEW_*\<close> wall types are declared in \<^verbatim>\<open>GW.h\<close>, which is
  not part of the sources. The spec gives a wall direction nine values, none and eight
  compass directions; the tables \<^verbatim>\<open>whitepicts\<close>, \<^verbatim>\<open>simpleh1\<close> and \<^verbatim>\<open>simpleh2\<close> have nine
  entries, and the comments of \<^verbatim>\<open>whitepicts\<close> name entries 1 to 8 as S, SSE, SE, ESE, E,
  ENE, NE and NNE. \<open>newtype_num\<close> is the integer value of a type.
\<close>

datatype newtype =
  NEW_NONE | NEW_S | NEW_SSE | NEW_SE | NEW_ESE | NEW_E | NEW_ENE | NEW_NE | NEW_NNE

fun newtype_num :: "newtype \<Rightarrow> int" where
  "newtype_num NEW_NONE = 0"
| "newtype_num NEW_S = 1"
| "newtype_num NEW_SSE = 2"
| "newtype_num NEW_SE = 3"
| "newtype_num NEW_ESE = 4"
| "newtype_num NEW_E = 5"
| "newtype_num NEW_ENE = 6"
| "newtype_num NEW_NE = 7"
| "newtype_num NEW_NNE = 8"

text \<open>
  Modelled from the spec: \<^verbatim>\<open>linerec\<close> is declared in \<^verbatim>\<open>GW.h\<close>. The record has the fields
  this file reads or writes, apart from \<^verbatim>\<open>type\<close>, \<^verbatim>\<open>kind\<close> and the two links; the field
  \<^verbatim>\<open>length\<close> is \<open>length_l\<close>. The array \<^verbatim>\<open>lines\<close> is the list of the records in front of
  the terminating record (the one with \<^verbatim>\<open>type == 0\<close>).
\<close>

record linerec =
  startx :: int
  starty :: int
  endx :: int
  endy :: int
  length_l :: int
  newtype :: newtype
  h1 :: int
  h2 :: int

record junctionrec =
  jx :: int
  jy :: int

text \<open>
  Step 3 of \<^verbatim>\<open>init_walls\<close>. \<open>near j x y\<close> is the test of the scan; \<open>scan_junctions\<close> is the
  junction at which the scan breaks, if any; \<open>add_endpoint\<close> is the body of the loop over
  \<^verbatim>\<open>i\<close> for one endpoint, \<open>find_junctions\<close> the loop over the walls.
\<close>

definition near :: "junctionrec \<Rightarrow> int \<Rightarrow> int \<Rightarrow> bool" where
  "near j x y \<longleftrightarrow> jx j \<le> x + 3 \<and> jx j \<ge> x - 3 \<and> jy j \<le> y + 3 \<and> jy j \<ge> y - 3"

definition scan_junctions :: "junctionrec list \<Rightarrow> int \<Rightarrow> int \<Rightarrow> junctionrec option" where
  "scan_junctions js x y = find (\<lambda>j. near j x y) js"

definition add_endpoint :: "junctionrec list \<Rightarrow> int \<Rightarrow> int \<Rightarrow> junctionrec list" where
  "add_endpoint js x y =
     (case scan_junctions js x y of
        Some j \<Rightarrow> js
      | None \<Rightarrow> js @ [\<lparr>jx = x, jy = y\<rparr>])"

fun find_junctions :: "linerec list \<Rightarrow> junctionrec list \<Rightarrow> junctionrec list" where
  "find_junctions [] js = js"
| "find_junctions (line # lines) js =
     find_junctions lines
       (add_endpoint (add_endpoint js (startx line) (starty line)) (endx line) (endy line))"

text \<open>No junction of the array is within 3 pixels, on both axes, of an earlier one.\<close>

definition far_apart :: "junctionrec list \<Rightarrow> bool" where
  "far_apart js \<longleftrightarrow>
     (\<forall>i < length js. \<forall>k < i. \<not> near (js ! k) (jx (js ! i)) (jy (js ! i)))"

subsection \<open>Drawing a piece: \<^verbatim>\<open>white_wall_piece\<close> and \<^verbatim>\<open>eor_wall_piece\<close>\<close>


















subsection \<open>Baseline pieces: \<^verbatim>\<open>norm_whites\<close>\<close>

text \<open>\<^verbatim>\<open>whitepicts[newtype][i]\<close>; \<open>None\<close> is the \<^verbatim>\<open>NULL\<close> entry.\<close>

fun whitepicts :: "newtype \<Rightarrow> bool \<Rightarrow> row list option" where
  "whitepicts NEW_NONE i = None"
| "whitepicts NEW_S i = (if i then Some sbot else Some generictop)"
| "whitepicts NEW_SSE i = (if i then Some ssebot else Some ssetop)"
| "whitepicts NEW_SE i = (if i then Some sebot else Some setop)"
| "whitepicts NEW_ESE i = (if i then Some eseright else None)"
| "whitepicts NEW_E i = (if i then Some generictop else Some eleft)"
| "whitepicts NEW_ENE i = (if i then Some generictop else Some eneleft)"
| "whitepicts NEW_NE i = (if i then Some generictop else Some nebot)"
| "whitepicts NEW_NNE i = (if i then Some generictop else Some nnebot)"

text \<open>
  The endpoint index \<^verbatim>\<open>i\<close> (and \<^verbatim>\<open>j\<close>, \<^verbatim>\<open>n\<close>, \<^verbatim>\<open>m\<close>), 0 for the start and 1 for the end
  of a wall, is a \<open>bool\<close>: \<open>True\<close> is the end.
\<close>

definition endpoint_x :: "linerec \<Rightarrow> bool \<Rightarrow> int" where
  "endpoint_x line i = (if i then endx line else startx line)"

definition endpoint_y :: "linerec \<Rightarrow> bool \<Rightarrow> int" where
  "endpoint_y line i = (if i then endy line else starty line)"

text \<open>The \<^verbatim>\<open>for (i=0; i<2; i++)\<close> step of \<^verbatim>\<open>norm_whites\<close> for one endpoint.\<close>

definition norm_endpoint :: "linerec \<Rightarrow> bool \<Rightarrow> whiterec list \<Rightarrow> whiterec list" where
  "norm_endpoint line i ws =
     (case whitepicts (newtype line) i of
        None \<Rightarrow> ws
      | Some pict \<Rightarrow> add_white (endpoint_x line i) (endpoint_y line i) 6 (Static pict) ws)"

text \<open>The \<^verbatim>\<open>switch\<close> of \<^verbatim>\<open>norm_whites\<close>: the glitch-fix pieces.\<close>

definition norm_glitch :: "linerec \<Rightarrow> whiterec list \<Rightarrow> whiterec list" where
  "norm_glitch line ws =
     (case newtype line of
        NEW_NE \<Rightarrow> add_white (endx line - 4) (endy line + 2) 4 (Static neglitch) ws
      | NEW_ENE \<Rightarrow>
          add_white (endx line - 10) (endy line + 1) 5 (Static eneglitch2)
            (add_white (startx line + 16) (starty line) 3 (Static eneglitch1) ws)
      | NEW_ESE \<Rightarrow> add_white (endx line - 7) (endy line - 2) 4 (Static eseglitch) ws
      | _ \<Rightarrow> ws)"

fun norm_whites :: "linerec list \<Rightarrow> whiterec list \<Rightarrow> whiterec list" where
  "norm_whites [] ws = ws"
| "norm_whites (line # lines) ws =
     norm_whites lines (norm_glitch line (norm_endpoint line True (norm_endpoint line False ws)))"

subsection \<open>Junction patches: \<^verbatim>\<open>one_close\<close> and \<^verbatim>\<open>close_whites\<close>\<close>

fun simpleh1 :: "newtype \<Rightarrow> int" where
  "simpleh1 NEW_NONE = 0"
| "simpleh1 NEW_S = 6"
| "simpleh1 NEW_SSE = 6"
| "simpleh1 NEW_SE = 6"
| "simpleh1 NEW_ESE = 12"
| "simpleh1 NEW_E = 16"
| "simpleh1 NEW_ENE = 0"
| "simpleh1 NEW_NE = 1"
| "simpleh1 NEW_NNE = 0"

fun simpleh2 :: "newtype \<Rightarrow> int" where
  "simpleh2 NEW_NONE = 0"
| "simpleh2 NEW_S = 0"
| "simpleh2 NEW_SSE = 0"
| "simpleh2 NEW_SE = 0"
| "simpleh2 NEW_ESE = - 1"
| "simpleh2 NEW_E = 0"
| "simpleh2 NEW_ENE = - 11"
| "simpleh2 NEW_NE = - 5"
| "simpleh2 NEW_NNE = - 5"

text \<open>
  \<^verbatim>\<open>dir1 = 9 - line->newtype; if (n) dir1 = (dir1 + 8) & 15;\<close>
\<close>

definition wall_dir :: "linerec \<Rightarrow> bool \<Rightarrow> int" where
  "wall_dir line n =
     (if n then (9 - newtype_num (newtype line) + 8) AND 15
      else 9 - newtype_num (newtype line))"

text \<open>The inner \<^verbatim>\<open>switch (dir2)\<close> of case 0; \<open>None\<close> is the \<^verbatim>\<open>default: return\<close>.\<close>

definition case0_size :: "int \<Rightarrow> int option" where
  "case0_size dir2 =
     (if dir2 = 15 \<or> dir2 = 1 then Some 21
      else if dir2 = 2 then Some 10
      else if dir2 = 3 \<or> dir2 = 14 then Some 6
      else None)"

text \<open>The inner \<^verbatim>\<open>switch (dir2)\<close> of case 2.\<close>

definition case2_count :: "int \<Rightarrow> int option" where
  "case2_count dir2 =
     (if dir2 = 0 then Some 3
      else if dir2 = 1 then Some 6
      else if dir2 = 3 then Some 4
      else if dir2 = 14 then Some 1
      else if dir2 = 15 then Some 2
      else None)"

text \<open>
  \<^verbatim>\<open>for (j = 0; j < 4*i; j += 4) if (line->h1 < 5 + j) add_white(...)\<close>, the list being the
  values \<^verbatim>\<open>j / 4\<close> still to come.
\<close>

fun case2_steps :: "linerec \<Rightarrow> nat list \<Rightarrow> whiterec list \<Rightarrow> whiterec list" where
  "case2_steps line [] ws = ws"
| "case2_steps line (k # ks) ws =
     case2_steps line ks
       (if h1 line < 5 + 4 * int k
        then add_white (startx line + 3 + 4 * int k) (starty line - 4 - 4 * int k) 4
               (Static nepatch) ws
        else ws)"

text \<open>
  \<^verbatim>\<open>one_close\<close> writes \<^verbatim>\<open>line->h1\<close>, \<^verbatim>\<open>line->h2\<close> and the piece list, and reads nothing of
  \<^verbatim>\<open>line2\<close> but its \<^verbatim>\<open>newtype\<close>: the result is the new \<^verbatim>\<open>*line\<close> and the new piece list.
  The directions other than 0 and 2 have no rule in this file.
\<close>

definition one_close ::
  "linerec \<Rightarrow> linerec \<Rightarrow> bool \<Rightarrow> bool \<Rightarrow> whiterec list \<Rightarrow> linerec \<times> whiterec list" where
  "one_close line line2 n m ws =
     (let dir1 = wall_dir line n; dir2 = wall_dir line2 m in
      if dir1 = dir2 then (line, ws)
      else if dir1 = 0 then
        (case case0_size dir2 of
           None \<Rightarrow> (line, ws)
         | Some i \<Rightarrow>
             (let j = h2 line in
              if length_l line - i > j then (line, ws)
              else
                (line\<lparr>h2 := length_l line - i\<rparr>,
                 (if j < length_l line
                  then replace_white_2 (startx line) (starty line + j)
                         (endx line) (endy line - i) i (Static npatch) ws
                  else add_white_2 (startx line) (starty line + j)
                         (endx line) (endy line - i) i (Static npatch) ws))))
      else if dir1 = 2 then
        (case case2_count dir2 of
           None \<Rightarrow> (line, ws)
         | Some i \<Rightarrow>
             (let ws' = case2_steps line [0..<nat i] ws;
                  j = 5 + 4 * (i - 1)
              in ((if h1 line < j then line\<lparr>h1 := j\<rparr> else line), ws')))
      else (line, ws))"

text \<open>
  The test of \<^verbatim>\<open>close_whites\<close> on endpoint \<open>i\<close> of \<^verbatim>\<open>line\<close> and endpoint \<open>j\<close> of
  \<^verbatim>\<open>line2\<close>, with \<^verbatim>\<open>x2\<close>, \<^verbatim>\<open>y2\<close> already moved by 3.
\<close>

definition in_box :: "linerec \<Rightarrow> bool \<Rightarrow> linerec \<Rightarrow> bool \<Rightarrow> bool" where
  "in_box line i line2 j \<longleftrightarrow>
     (let x1 = endpoint_x line i; y1 = endpoint_y line i;
          x2 = endpoint_x line2 j - 3; y2 = endpoint_y line2 j - 3
      in x1 > x2 \<and> y1 > y2 \<and> x1 < x2 + 6 \<and> y1 < y2 + 6)"

definition close_pair ::
  "linerec \<Rightarrow> bool \<Rightarrow> linerec \<Rightarrow> bool \<Rightarrow> whiterec list \<Rightarrow> linerec \<times> whiterec list" where
  "close_pair line i line2 j ws =
     (if in_box line i line2 j then one_close line line2 i j ws else (line, ws))"

text \<open>
  \<^verbatim>\<open>for (line2=first; line2->startx < x1 + 3; line2++)\<close> with its loop over \<^verbatim>\<open>j\<close>. The
  list is the array \<^verbatim>\<open>lines\<close> from \<^verbatim>\<open>line2\<close> on, the terminating record being its last
  element; the guard does not test \<^verbatim>\<open>type\<close>, so the terminating record is a candidate
  like any other, and \<open>None\<close> is a scan that runs past it, off the array.
\<close>

fun scan_line2 ::
  "linerec list \<Rightarrow> linerec \<Rightarrow> bool \<Rightarrow> whiterec list \<Rightarrow> (linerec \<times> whiterec list) option" where
  "scan_line2 [] line i ws = None"
| "scan_line2 (line2 # rest) line i ws =
     (if startx line2 < endpoint_x line i + 3
      then (case close_pair line i line2 False ws of
              (line', ws') \<Rightarrow>
                (case close_pair line' i line2 True ws' of
                   (line'', ws'') \<Rightarrow> scan_line2 rest line'' i ws''))
      else Some (line, ws))"

text \<open>
  The body of the loop over \<^verbatim>\<open>i\<close> for both endpoints of \<^verbatim>\<open>line\<close>, the candidates
  starting at \<^verbatim>\<open>first\<close>.
\<close>

definition close_line ::
  "linerec list \<Rightarrow> linerec \<Rightarrow> whiterec list \<Rightarrow> (linerec \<times> whiterec list) option" where
  "close_line cands line ws =
     (case scan_line2 cands line False ws of
        None \<Rightarrow> None
      | Some (line', ws') \<Rightarrow> scan_line2 cands line' True ws')"

text \<open>
  The loop over \<^verbatim>\<open>line\<close>. The first list holds the walls still to be visited, the second
  is the array from \<^verbatim>\<open>first\<close> on, which
  \<^verbatim>\<open>while (first->endx < line->startx - 3) first++;\<close> advances. The fields of
  \<^verbatim>\<open>line2\<close> that are read (coordinates and \<^verbatim>\<open>newtype\<close>) are never written, so the
  candidates can be read from the array as it was when the loop started.
\<close>

fun close_loop ::
  "linerec list \<Rightarrow> linerec list \<Rightarrow> whiterec list \<Rightarrow> (linerec list \<times> whiterec list) option" where
  "close_loop [] cands ws = Some ([], ws)"
| "close_loop (line # lines) cands ws =
     (case close_line (dropWhile (\<lambda>f. endx f < startx line - 3) cands) line ws of
        None \<Rightarrow> None
      | Some (line', ws') \<Rightarrow>
          (case close_loop lines (dropWhile (\<lambda>f. endx f < startx line - 3) cands) ws' of
             None \<Rightarrow> None
           | Some (lines', ws'') \<Rightarrow> Some (line' # lines', ws'')))"

definition set_defaults :: "linerec \<Rightarrow> linerec" where
  "set_defaults line =
     line\<lparr>h1 := simpleh1 (newtype line),
          h2 := length_l line + simpleh2 (newtype line)\<rparr>"

text \<open>
  \<^verbatim>\<open>close_whites\<close>; \<open>endrec\<close> is the terminating record of \<^verbatim>\<open>lines\<close>, which the level
  loader writes.
\<close>

definition close_whites ::
  "linerec \<Rightarrow> linerec list \<Rightarrow> whiterec list \<Rightarrow> (linerec list \<times> whiterec list) option" where
  "close_whites endrec lines ws =
     close_loop (map set_defaults lines) (map set_defaults lines @ [endrec]) ws"

text \<open>
  Walls for the examples: an S wall and an SE wall that both start at (100, 50), an S wall
  and an SE wall that both end at (100, 50), and a terminating record far to the right.
\<close>

definition wall_S_down :: linerec where
  "wall_S_down = \<lparr>startx = 100, starty = 50, endx = 100, endy = 90, length_l = 40,
     newtype = NEW_S, h1 = 0, h2 = 0\<rparr>"

definition wall_SE_down :: linerec where
  "wall_SE_down = \<lparr>startx = 100, starty = 50, endx = 130, endy = 80, length_l = 30,
     newtype = NEW_SE, h1 = 0, h2 = 0\<rparr>"

definition wall_S_up :: linerec where
  "wall_S_up = \<lparr>startx = 100, starty = 10, endx = 100, endy = 50, length_l = 40,
     newtype = NEW_S, h1 = 6, h2 = 40\<rparr>"

definition wall_SE_up :: linerec where
  "wall_SE_up = \<lparr>startx = 60, starty = 10, endx = 100, endy = 50, length_l = 40,
     newtype = NEW_SE, h1 = 6, h2 = 40\<rparr>"

definition endrec_far :: linerec where
  "endrec_far = \<lparr>startx = 10000, starty = 0, endx = 10000, endy = 0, length_l = 0,
     newtype = NEW_NONE, h1 = 0, h2 = 0\<rparr>"

text \<open>
  Predicates for the properties of \<^verbatim>\<open>close_whites\<close>. \<open>same_place a b\<close>: the two records
  agree on everything but \<^verbatim>\<open>h1\<close> and \<^verbatim>\<open>h2\<close>. \<open>apart line c\<close>: no endpoint of \<open>c\<close> passes
  the box test of \<^verbatim>\<open>close_whites\<close> against an endpoint of \<open>line\<close>, which holds whenever
  every endpoint of \<open>c\<close> is 3 pixels or more away, on some axis, from every endpoint of
  \<open>line\<close>. \<open>isolated lines k\<close>: every other wall of the list is apart from wall \<open>k\<close>.
  \<open>endrec_beyond endrec lines\<close>: the terminating record lies at least 3 pixels to the right of
  every wall, which is what ends the scans of \<^verbatim>\<open>close_whites\<close>. \<open>norm_pieces line\<close>: the
  pieces \<^verbatim>\<open>norm_whites\<close> records for one wall.
\<close>

definition same_place :: "linerec \<Rightarrow> linerec \<Rightarrow> bool" where
  "same_place a b \<longleftrightarrow>
     startx a = startx b \<and> starty a = starty b \<and> endx a = endx b \<and> endy a = endy b
     \<and> length_l a = length_l b \<and> newtype a = newtype b"

definition apart :: "linerec \<Rightarrow> linerec \<Rightarrow> bool" where
  "apart line c \<longleftrightarrow>
     \<not> in_box line False c False \<and> \<not> in_box line False c True
     \<and> \<not> in_box line True c False \<and> \<not> in_box line True c True"

definition isolated :: "linerec list \<Rightarrow> nat \<Rightarrow> bool" where
  "isolated lines k \<longleftrightarrow> list_all (apart (lines ! k)) (take k lines @ drop (Suc k) lines)"

definition endrec_beyond :: "linerec \<Rightarrow> linerec list \<Rightarrow> bool" where
  "endrec_beyond endrec lines \<longleftrightarrow>
     list_all (\<lambda>l. startx l + 3 \<le> startx endrec \<and> endx l + 3 \<le> startx endrec
                 \<and> startx l + 3 \<le> endx endrec \<and> endx l + 3 \<le> endx endrec) lines"

definition norm_pieces :: "linerec \<Rightarrow> whiterec list" where
  "norm_pieces line = norm_glitch line (norm_endpoint line True (norm_endpoint line False []))"






text \<open>
  An E wall that ends on the S wall \<open>wall_S_up\<close>, 10 pixels above its end, and an NE and an
  NNE wall that start at the end of that S wall.
\<close>

definition wall_E_tee :: linerec where
  "wall_E_tee = \<lparr>startx = 60, starty = 40, endx = 100, endy = 40, length_l = 40,
     newtype = NEW_E, h1 = 0, h2 = 0\<rparr>"

definition wall_NE_corner :: linerec where
  "wall_NE_corner = \<lparr>startx = 100, starty = 50, endx = 130, endy = 20, length_l = 30,
     newtype = NEW_NE, h1 = 0, h2 = 0\<rparr>"

definition wall_NNE_corner :: linerec where
  "wall_NNE_corner = \<lparr>startx = 100, starty = 50, endx = 115, endy = 20, length_l = 30,
     newtype = NEW_NNE, h1 = 0, h2 = 0\<rparr>"

subsection \<open>Sorting: the insertion sorts of \<^verbatim>\<open>init_walls\<close> and \<^verbatim>\<open>init_whites\<close>\<close>

text \<open>
  Both sorts take the entries from left to right and swap the new entry with its
  predecessor for as long as it is smaller. \<open>move_down lt e acc\<close> is the inner loop:
  \<open>acc\<close> holds the entries in front of \<open>e\<close>, the nearest first.
\<close>

fun move_down :: "('a \<Rightarrow> 'a \<Rightarrow> bool) \<Rightarrow> 'a \<Rightarrow> 'a list \<Rightarrow> 'a list" where
  "move_down lt e [] = [e]"
| "move_down lt e (p # ps) =
     (if lt e p then p # move_down lt e ps else e # p # ps)"

definition insertion_sort :: "('a \<Rightarrow> 'a \<Rightarrow> bool) \<Rightarrow> 'a list \<Rightarrow> 'a list" where
  "insertion_sort lt xs = rev (foldl (\<lambda>acc e. move_down lt e acc) [] xs)"

text \<open>\<^verbatim>\<open>movej->x < (movej-1)->x\<close>\<close>

definition junction_less :: "junctionrec \<Rightarrow> junctionrec \<Rightarrow> bool" where
  "junction_less a b \<longleftrightarrow> jx a < jx b"

text \<open>
  \<^verbatim>\<open>movewh->x <= (movewh-1)->x && (movewh->x < (movewh-1)->x || movewh->y < (movewh-1)->y)\<close>
\<close>

definition white_less :: "whiterec \<Rightarrow> whiterec \<Rightarrow> bool" where
  "white_less a b \<longleftrightarrow> wx a \<le> wx b \<and> (wx a < wx b \<or> wy a < wy b)"

subsection \<open>Crosshatch overlay: \<^verbatim>\<open>no_close_wh\<close> and \<^verbatim>\<open>white_hash_merge\<close>\<close>

text \<open>
  The two loops of \<^verbatim>\<open>no_close_wh\<close>. The first list of \<open>no_close_wh\<close> holds the pieces in
  front of \<^verbatim>\<open>w1\<close>, the nearest first, the second the pieces behind it. The second loop
  ends at the sentinel at the latest: a piece \<^verbatim>\<open>white_hash_merge\<close> passes has
  x below \<^verbatim>\<open>worldwidth - 8\<close>, and the world is narrower than the sentinel's 20000.
\<close>

fun scan_back :: "whiterec \<Rightarrow> whiterec list \<Rightarrow> bool" where
  "scan_back w1 [] = True"
| "scan_back w1 (w2 # rest) =
     (if wx w2 > wx w1 - 3
      then (if wy w2 < wy w1 + 3 \<and> wy w2 > wy w1 - 3 then False else scan_back w1 rest)
      else True)"

fun scan_fwd :: "whiterec \<Rightarrow> whiterec list \<Rightarrow> bool" where
  "scan_fwd w1 [] = True"
| "scan_fwd w1 (w2 # rest) =
     (if wx w2 < wx w1 + 3
      then (if wy w2 < wy w1 + 3 \<and> wy w2 > wy w1 - 3 then False else scan_fwd w1 rest)
      else True)"

definition no_close_wh :: "whiterec list \<Rightarrow> whiterec \<Rightarrow> whiterec list \<Rightarrow> bool" where
  "no_close_wh front w1 behind \<longleftrightarrow> scan_back w1 front \<and> scan_fwd w1 behind"

text \<open>
  The junction pointer \<^verbatim>\<open>j\<close> is an index into the junction list; the index
  \<open>length js\<close> is the sentinel, whose x is 20000.
  \<^verbatim>\<open>while (j > junctions && j->x >= wh->x) j--;\<close>
\<close>

fun back_j :: "junctionrec list \<Rightarrow> int \<Rightarrow> nat \<Rightarrow> nat" where
  "back_j js x 0 = 0"
| "back_j js x (Suc j) =
     (if (if Suc j < length js then jx (js ! Suc j) else 20000) \<ge> x
      then back_j js x j else Suc j)"

text \<open>
  \<^verbatim>\<open>while (j->x <= wh->x && j->y != wh->y) j++;\<close> The list is the array from \<^verbatim>\<open>j\<close> on
  and the result the number of steps; at the sentinel the loop stops, the x of the piece
  being below 20000.
\<close>

fun fwd_j :: "junctionrec list \<Rightarrow> int \<Rightarrow> int \<Rightarrow> nat" where
  "fwd_j [] x y = 0"
| "fwd_j (jn # rest) x y =
     (if jx jn \<le> x \<and> jy jn \<noteq> y then Suc (fwd_j rest x y) else 0)"

definition find_j :: "junctionrec list \<Rightarrow> whiterec \<Rightarrow> nat \<Rightarrow> nat" where
  "find_j js wh j =
     (let j1 = back_j js (wx wh) j in j1 + fwd_j (drop j1 js) (wx wh) (wy wh))"

text \<open>
  \<^verbatim>\<open>for (movej = j; movej->x < 20000; movej++) *movej = movej[1];\<close> on the array from
  \<^verbatim>\<open>j\<close> on.
\<close>

fun shift_junctions :: "junctionrec list \<Rightarrow> junctionrec list" where
  "shift_junctions [] = []"
| "shift_junctions [r] = (if jx r < 20000 then [] else [r])"
| "shift_junctions (r # r' # rest) =
     (if jx r < 20000 then r' # shift_junctions (r' # rest) else r # r' # rest)"

definition remove_junction :: "junctionrec list \<Rightarrow> nat \<Rightarrow> junctionrec list" where
  "remove_junction js j = take j js @ shift_junctions (drop j js)"

text \<open>
  The six rows of the overlay. \<^verbatim>\<open>back\<close> is a 16-bit register loaded from the long
  \<^verbatim>\<open>backgr1\<close> or \<^verbatim>\<open>backgr2\<close> and rotated left by one after every row.
\<close>

definition hash_rows :: "row \<Rightarrow> row list \<Rightarrow> row list" where
  "hash_rows back d =
     map (\<lambda>i. (word_rotl i back AND (NOT (d ! i) OR hash_figure ! i)) XOR hash_figure ! i)
       [0..<6]"

definition hash_piece :: "32 word \<Rightarrow> 32 word \<Rightarrow> whiterec \<Rightarrow> whiterec" where
  "hash_piece backgr1 backgr2 wh =
     wh\<lparr>data := Arena (hash_rows (ucast (if odd (wx wh + wy wh) then backgr2 else backgr1))
                       (rows_of (data wh))),
        hasj := True\<rparr>"

text \<open>\<^verbatim>\<open>whitesused\<close> after the allocation of \<^verbatim>\<open>newdata\<close>.\<close>

definition hash_used :: "whiterec \<Rightarrow> nat \<Rightarrow> nat" where
  "hash_used wh used = (case data wh of Arena rs \<Rightarrow> used | Static rs \<Rightarrow> used + 6)"

text \<open>
  The guard \<^verbatim>\<open>wh->ht == 6 && no_close_wh(wh) && wh->x > 8\<close> and the test
  \<^verbatim>\<open>j->x == wh->x && j->y == wh->y\<close>, which the sentinel never passes.
\<close>

definition hash_guard :: "whiterec list \<Rightarrow> whiterec \<Rightarrow> whiterec list \<Rightarrow> bool" where
  "hash_guard front wh behind \<longleftrightarrow> ht wh = 6 \<and> no_close_wh front wh behind \<and> wx wh > 8"

definition junction_at :: "junctionrec list \<Rightarrow> whiterec \<Rightarrow> nat \<Rightarrow> bool" where
  "junction_at js wh j \<longleftrightarrow> j < length js \<and> jx (js ! j) = wx wh \<and> jy (js ! j) = wy wh"

text \<open>
  The loop of \<^verbatim>\<open>white_hash_merge\<close>. \<open>front\<close> holds the pieces in front of \<^verbatim>\<open>wh\<close>, the
  nearest first, and the next list the array from \<^verbatim>\<open>wh\<close> on. \<open>ww\<close> is \<^verbatim>\<open>worldwidth\<close>.
  The result is the piece list, the junction list, \<^verbatim>\<open>j\<close> and \<^verbatim>\<open>whitesused\<close>.
\<close>

fun whm_loop ::
  "int \<Rightarrow> 32 word \<Rightarrow> 32 word \<Rightarrow> whiterec list \<Rightarrow> whiterec list \<Rightarrow> junctionrec list \<Rightarrow> nat \<Rightarrow> nat
   \<Rightarrow> whiterec list \<times> junctionrec list \<times> nat \<times> nat" where
  "whm_loop ww backgr1 backgr2 front [] js j used = (rev front, js, j, used)"
| "whm_loop ww backgr1 backgr2 front (wh # behind) js j used =
     (if wx wh < ww - 8 then
        (if hash_guard front wh behind then
           (if junction_at js wh (find_j js wh j)
            then whm_loop ww backgr1 backgr2 (hash_piece backgr1 backgr2 wh # front) behind
                   (remove_junction js (find_j js wh j)) (find_j js wh j) (hash_used wh used)
            else whm_loop ww backgr1 backgr2 (wh # front) behind js (find_j js wh j) used)
         else whm_loop ww backgr1 backgr2 (wh # front) behind js j used)
      else (rev front @ wh # behind, js, j, used))"

definition white_hash_merge ::
  "int \<Rightarrow> 32 word \<Rightarrow> 32 word \<Rightarrow> whiterec list \<Rightarrow> junctionrec list \<Rightarrow> nat
   \<Rightarrow> whiterec list \<times> junctionrec list \<times> nat" where
  "white_hash_merge ww backgr1 backgr2 ws js used =
     (case whm_loop ww backgr1 backgr2 [] ws js 0 used of
        (ws', js', j, used') \<Rightarrow> (ws', js', used'))"

subsection \<open>\<^verbatim>\<open>init_whites\<close> and \<^verbatim>\<open>init_walls\<close>\<close>

text \<open>
  \<^verbatim>\<open>init_whites\<close>: baseline pieces, junction patches, the sort, the merge loop and the
  overlay. The result is the wall list, the piece list and the junction list.
\<close>

definition init_whites ::
  "linerec \<Rightarrow> int \<Rightarrow> 32 word \<Rightarrow> 32 word \<Rightarrow> linerec list \<Rightarrow> junctionrec list
   \<Rightarrow> (linerec list \<times> whiterec list \<times> junctionrec list) option" where
  "init_whites endrec ww backgr1 backgr2 lines js =
     (case close_whites endrec lines (norm_whites lines []) of
        None \<Rightarrow> None
      | Some (lines', ws) \<Rightarrow>
          (case merge_whites (insertion_sort white_less ws) 0 of
             (ws', used) \<Rightarrow>
               (case white_hash_merge ww backgr1 backgr2 ws' js used of
                  (ws'', js', used') \<Rightarrow> Some (lines', ws'', js'))))"

text \<open>
  \<^verbatim>\<open>init_walls\<close> from step 3 on: the junctions, their sort, and \<^verbatim>\<open>init_whites\<close>. Steps 1
  and 2 build the linked lists through the fields \<^verbatim>\<open>next\<close> and \<^verbatim>\<open>nextwh\<close>, which nothing
  below reads.
\<close>

definition init_walls ::
  "linerec \<Rightarrow> int \<Rightarrow> 32 word \<Rightarrow> 32 word \<Rightarrow> linerec list
   \<Rightarrow> (linerec list \<times> whiterec list \<times> junctionrec list) option" where
  "init_walls endrec ww backgr1 backgr2 lines =
     init_whites endrec ww backgr1 backgr2 lines
       (insertion_sort junction_less (find_junctions lines []))"

subsection \<open>Predicates for the properties of the overlay\<close>

text \<open>
  \<open>wcoords\<close> and \<open>jcoords\<close>: the position of a piece and of a junction. \<open>crowded w1 w2\<close>:
  \<open>w2\<close> lies less than 3 pixels away from \<open>w1\<close> on both axes, which is what
  \<^verbatim>\<open>no_close_wh\<close> looks for. \<open>overlaid_ok\<close>: the conditions under which the loop of
  \<^verbatim>\<open>white_hash_merge\<close> overlays a piece, apart from where its junction scan stops.
  \<open>piece_result\<close> and \<open>junction_result\<close>: what the loop did to the piece at index \<open>i\<close> of
  the pieces it had still to visit, and to a junction. \<open>no_hasj\<close>: no piece of the list has
  its \<^verbatim>\<open>hasj\<close> flag set.
\<close>

definition wcoords :: "whiterec \<Rightarrow> int \<times> int" where
  "wcoords w = (wx w, wy w)"

definition jcoords :: "junctionrec \<Rightarrow> int \<times> int" where
  "jcoords j = (jx j, jy j)"

definition overlaid_ok ::
  "int \<Rightarrow> whiterec list \<Rightarrow> whiterec \<Rightarrow> whiterec list \<Rightarrow> junctionrec list \<Rightarrow> bool" where
  "overlaid_ok ww front wh behind js \<longleftrightarrow>
     wx wh < ww - 8 \<and> hash_guard front wh behind
     \<and> (\<exists>jn \<in> set js. jx jn = wx wh \<and> jy jn = wy wh)"

definition piece_result ::
  "int \<Rightarrow> 32 word \<Rightarrow> 32 word \<Rightarrow> whiterec list \<Rightarrow> whiterec list \<Rightarrow> junctionrec list
   \<Rightarrow> whiterec list \<Rightarrow> nat \<Rightarrow> bool" where
  "piece_result ww b1 b2 front behind js out i \<longleftrightarrow>
     out ! i = behind ! i
     \<or> (out ! i = hash_piece b1 b2 (behind ! i)
        \<and> overlaid_ok ww (rev (take i behind) @ front) (behind ! i) (drop (Suc i) behind) js)"

definition junction_result ::
  "int \<Rightarrow> 32 word \<Rightarrow> 32 word \<Rightarrow> whiterec list \<Rightarrow> whiterec list \<Rightarrow> junctionrec list
   \<Rightarrow> whiterec list \<Rightarrow> junctionrec list \<Rightarrow> junctionrec \<Rightarrow> bool" where
  "junction_result ww b1 b2 front behind js out js' jn \<longleftrightarrow>
     jn \<in> set js'
     \<or> (\<exists>i < length behind. out ! i = hash_piece b1 b2 (behind ! i)
          \<and> overlaid_ok ww (rev (take i behind) @ front) (behind ! i) (drop (Suc i) behind) js
          \<and> jx jn = wx (behind ! i) \<and> jy jn = wy (behind ! i))"


abbreviation (input) no_hasj :: "whiterec list \<Rightarrow> bool" where
  "no_hasj ws \<equiv> list_all (\<lambda>w. \<not> hasj w) ws"


definition wall_S_300 :: linerec where
  "wall_S_300 = \<lparr>startx = 300, starty = 50, endx = 300, endy = 100, length_l = 50,
     newtype = NEW_S, h1 = 0, h2 = 0\<rparr>"

definition wall_ESE_100 :: linerec where
  "wall_ESE_100 = \<lparr>startx = 100, starty = 50, endx = 150, endy = 75, length_l = 50,
     newtype = NEW_ESE, h1 = 0, h2 = 0\<rparr>"

section \<open>Properties\<close>

subsection \<open>Replacing a piece\<close>

text \<open>
  C3 (counterexample). The claim lets \<^verbatim>\<open>replace_white_2\<close> append the new piece when no
  recorded piece has the target coordinates and a smaller height. On a list whose only piece
  sits elsewhere the function returns the list as it was: one piece, not two.
\<close>

theorem replace_white_2_appends_counterexample:
  "replace_white_2 100 50 100 44 6 (Static npatch)
     [\<lparr>wx = 7, wy = 9, hasj = False, ht = 6, data = Static npatch\<rparr>]
   = [\<lparr>wx = 7, wy = 9, hasj = False, ht = 6, data = Static npatch\<rparr>]
   \<and> replace_white_2 100 50 100 44 6 (Static npatch)
     [\<lparr>wx = 7, wy = 9, hasj = False, ht = 6, data = Static npatch\<rparr>]
   \<noteq> add_white 100 44 6 (Static npatch)
     [\<lparr>wx = 7, wy = 9, hasj = False, ht = 6, data = Static npatch\<rparr>]"
  by (simp add: add_white_def)

text \<open>
  C3 (amended). \<^verbatim>\<open>replace_white_2\<close> overwrites, in place, the first recorded piece that has
  exactly the target coordinates and a strictly smaller height with the new position, height
  and pattern (its \<^verbatim>\<open>hasj\<close> flag stays); when no recorded piece qualifies the piece list is
  left unchanged and nothing is appended. Appending is what \<^verbatim>\<open>add_white_2\<close> does, the other
  function \<^verbatim>\<open>one_close\<close> can select.
\<close>

theorem replace_white_2_first_match_or_unchanged:
  "((\<forall>w \<in> set ws. \<not> (wx w = tx \<and> wy w = ty \<and> ht w < h)) \<longrightarrow>
      replace_white_2 tx ty x y h d ws = ws)
   \<and> (\<forall>i < length ws.
        wx (ws ! i) = tx \<and> wy (ws ! i) = ty \<and> ht (ws ! i) < h \<and>
        (\<forall>k < i. \<not> (wx (ws ! k) = tx \<and> wy (ws ! k) = ty \<and> ht (ws ! k) < h)) \<longrightarrow>
        replace_white_2 tx ty x y h d ws
          = ws[i := (ws ! i)\<lparr>wx := x, wy := y, ht := h, data := d\<rparr>])
   \<and> add_white_2 tx ty x y h d ws
       = ws @ [\<lparr>wx = x, wy = y, hasj = False, ht = h, data = d\<rparr>]"
proof (intro conjI)
  show "(\<forall>w \<in> set ws. \<not> (wx w = tx \<and> wy w = ty \<and> ht w < h)) \<longrightarrow>
      replace_white_2 tx ty x y h d ws = ws"
    by (induction ws) auto
next
  show "\<forall>i < length ws.
        wx (ws ! i) = tx \<and> wy (ws ! i) = ty \<and> ht (ws ! i) < h \<and>
        (\<forall>k < i. \<not> (wx (ws ! k) = tx \<and> wy (ws ! k) = ty \<and> ht (ws ! k) < h)) \<longrightarrow>
        replace_white_2 tx ty x y h d ws
          = ws[i := (ws ! i)\<lparr>wx := x, wy := y, ht := h, data := d\<rparr>]"
  proof (induction ws)
    case Nil
    show ?case by simp
  next
    case (Cons w ws)
    show ?case
    proof (intro allI impI)
      fix i
      assume i: "i < length (w # ws)"
        and m: "wx ((w # ws) ! i) = tx \<and> wy ((w # ws) ! i) = ty \<and> ht ((w # ws) ! i) < h \<and>
          (\<forall>k < i. \<not> (wx ((w # ws) ! k) = tx \<and> wy ((w # ws) ! k) = ty \<and> ht ((w # ws) ! k) < h))"
      show "replace_white_2 tx ty x y h d (w # ws)
          = (w # ws)[i := ((w # ws) ! i)\<lparr>wx := x, wy := y, ht := h, data := d\<rparr>]"
      proof (cases i)
        case 0
        with m show ?thesis by auto
      next
        case (Suc n)
        with m have w: "\<not> (wx w = tx \<and> wy w = ty \<and> ht w < h)"
          by (metis nth_Cons_0 zero_less_Suc)
        from Suc i have n: "n < length ws" by simp
        from Suc m have mn: "wx (ws ! n) = tx \<and> wy (ws ! n) = ty \<and> ht (ws ! n) < h"
          by simp
        have before: "\<forall>k < n. \<not> (wx (ws ! k) = tx \<and> wy (ws ! k) = ty \<and> ht (ws ! k) < h)"
        proof (intro allI impI)
          fix k assume "k < n"
          then have "Suc k < i" using Suc by simp
          with m have "\<not> (wx ((w # ws) ! Suc k) = tx \<and> wy ((w # ws) ! Suc k) = ty
              \<and> ht ((w # ws) ! Suc k) < h)"
            by blast
          then show "\<not> (wx (ws ! k) = tx \<and> wy (ws ! k) = ty \<and> ht (ws ! k) < h)"
            by simp
        qed
        from Cons.IH n mn before
        have "replace_white_2 tx ty x y h d ws
            = ws[n := (ws ! n)\<lparr>wx := x, wy := y, ht := h, data := d\<rparr>]"
          by blast
        with w Suc show ?thesis by auto
      qed
    qed
  qed
next
  show "add_white_2 tx ty x y h d ws
       = ws @ [\<lparr>wx = x, wy = y, hasj = False, ht = h, data = d\<rparr>]"
    by (simp add: add_white_2_def add_white_def)
qed

theorem replace_white_2_first_match_or_unchanged_witness:
  "replace_white_2 100 50 100 44 6 (Static npatch)
     [\<lparr>wx = 7, wy = 9, hasj = False, ht = 6, data = Static npatch\<rparr>]
   = [\<lparr>wx = 7, wy = 9, hasj = False, ht = 6, data = Static npatch\<rparr>]
   \<and> replace_white_2 100 50 100 44 6 (Static npatch)
     [\<lparr>wx = 7, wy = 9, hasj = False, ht = 6, data = Static []\<rparr>,
      \<lparr>wx = 100, wy = 50, hasj = False, ht = 4, data = Static []\<rparr>,
      \<lparr>wx = 100, wy = 50, hasj = False, ht = 3, data = Static []\<rparr>]
   = [\<lparr>wx = 7, wy = 9, hasj = False, ht = 6, data = Static []\<rparr>,
      \<lparr>wx = 100, wy = 44, hasj = False, ht = 6, data = Static npatch\<rparr>,
      \<lparr>wx = 100, wy = 50, hasj = False, ht = 3, data = Static []\<rparr>]"
proof -
  let ?a = "\<lparr>wx = 7, wy = 9, hasj = False, ht = 6, data = Static npatch\<rparr>"
  let ?b = "\<lparr>wx = 7, wy = 9, hasj = False, ht = 6, data = Static []\<rparr>"
  let ?c = "\<lparr>wx = 100, wy = 50, hasj = False, ht = 4, data = Static []\<rparr>"
  let ?e = "\<lparr>wx = 100, wy = 50, hasj = False, ht = 3, data = Static []\<rparr>"
  have 1: "replace_white_2 100 50 100 44 6 (Static npatch) [?a] = [?a]"
    using replace_white_2_first_match_or_unchanged
      [of "[?a]" 100 50 6 100 44 "Static npatch"]
    by simp
  have 2: "replace_white_2 100 50 100 44 6 (Static npatch) [?b, ?c, ?e]
      = [?b, ?c, ?e][1 := ([?b, ?c, ?e] ! 1)
          \<lparr>wx := 100, wy := 44, ht := 6, data := Static npatch\<rparr>]"
    using replace_white_2_first_match_or_unchanged
      [of "[?b, ?c, ?e]" 100 50 6 100 44 "Static npatch"]
    by simp
  from 1 2 show ?thesis by simp
qed

subsection \<open>Merging pieces at the same position\<close>

lemma upt_6: "[0..<6] = [0, 1, 2, 3, 4, 5::nat]"
  by (simp add: upt_rec)

lemma and_rows_unfold:
  "and_rows a b =
     [rows_of a ! 0 AND rows_of b ! 0, rows_of a ! 1 AND rows_of b ! 1,
      rows_of a ! 2 AND rows_of b ! 2, rows_of a ! 3 AND rows_of b ! 3,
      rows_of a ! 4 AND rows_of b ! 4, rows_of a ! 5 AND rows_of b ! 5]"
  by (simp add: and_rows_def upt_6)

lemma and_rows_nth:
  "i < 6 \<Longrightarrow> and_rows a b ! i = rows_of a ! i AND rows_of b ! i"
  by (simp add: and_rows_def)

lemma merge_whites_stop:
  "\<not> wx w < 20000 \<Longrightarrow> merge_whites (w # rest) used = (w # rest, used)"
  by (cases rest) simp_all

lemma merge_whites_join:
  "wx w < 20000 \<Longrightarrow> mergeable w w2 \<Longrightarrow>
   merge_whites (w # w2 # rest) used
     = merge_whites (w\<lparr>data := Arena (and_rows (data w) (data w2))\<rparr> # shift_from (w2 # rest))
         (used + 6)"
  by (subst merge_whites.simps) (simp del: merge_whites.simps)

lemma merge_whites_skip:
  "wx w < 20000 \<Longrightarrow> \<not> (mergeable w w2) \<Longrightarrow>
   merge_whites (w # w2 # rest) used
     = (w # fst (merge_whites (w2 # rest) used), snd (merge_whites (w2 # rest) used))"
  by (subst merge_whites.simps) (simp del: merge_whites.simps add: case_prod_beta)

lemmas [simp del] = merge_whites.simps(3)

lemma merge_whites_head:
  "\<exists>m out. fst (merge_whites (w # rest) used) = m # out \<and> wx m = wx w \<and> wy m = wy w \<and> ht m = ht w
     \<and> hasj m = hasj w
     \<and> (\<forall>i<6. \<forall>n. bit (rows_of (data m) ! i) n \<longrightarrow> bit (rows_of (data w) ! i) n)"
proof (induction "w # rest" used arbitrary: w rest rule: merge_whites.induct)
  case (2 w used)
  show ?case by simp
next
  case (3 w w2 rest used)
  show ?case
  proof (cases "wx w < 20000")
    case False
    then show ?thesis by (simp add: merge_whites_stop)
  next
    case lt: True
    show ?thesis
    proof (cases "mergeable w w2")
      case True
      let ?w' = "w\<lparr>data := Arena (and_rows (data w) (data w2))\<rparr>"
      from "3.hyps"(1)[OF lt True]
      obtain m out where m: "fst (merge_whites (?w' # shift_from (w2 # rest)) (used + 6)) = m # out"
        "wx m = wx ?w'" "wy m = wy ?w'" "ht m = ht ?w'" "hasj m = hasj ?w'"
        and sub: "\<forall>i<6. \<forall>n. bit (rows_of (data m) ! i) n \<longrightarrow> bit (rows_of (data ?w') ! i) n"
        by blast
      have "\<forall>i<6. \<forall>n. bit (rows_of (data m) ! i) n \<longrightarrow> bit (rows_of (data w) ! i) n"
      proof (intro allI impI)
        fix i n :: nat assume i: "i < 6" and b: "bit (rows_of (data m) ! i) n"
        with sub have "bit (rows_of (data ?w') ! i) n" by blast
        with i show "bit (rows_of (data w) ! i) n"
          by (simp add: and_rows_nth bit_and_iff)
      qed
      with m show ?thesis by (simp add: merge_whites_join[OF lt True])
    next
      case False
      have "fst (merge_whites (w # w2 # rest) used) = w # fst (merge_whites (w2 # rest) used)"
        by (simp add: merge_whites_skip[OF lt False])
      then show ?thesis by blast
    qed
  qed
qed

lemma merge_whites_idem:
  "merge_whites (fst (merge_whites ws used)) used' = (fst (merge_whites ws used), used')"
proof (induction ws used arbitrary: used' rule: merge_whites.induct)
  case (1 used)
  show ?case by simp
next
  case (2 w used)
  show ?case by simp
next
  case (3 w w2 rest used)
  show ?case
  proof (cases "wx w < 20000")
    case False
    then show ?thesis by (simp add: merge_whites_stop)
  next
    case lt: True
    show ?thesis
    proof (cases "mergeable w w2")
      case True
      from "3.IH"(1)[OF lt True] show ?thesis
        by (simp add: merge_whites_join[OF lt True])
    next
      case False
      obtain m out where m: "fst (merge_whites (w2 # rest) used) = m # out"
        "wx m = wx w2" "wy m = wy w2" "ht m = ht w2"
        using merge_whites_head[of w2 rest used] by blast
      from False m have nd: "\<not> (mergeable w m)"
        by (simp add: mergeable_def)
      from "3.IH"(2)[OF lt False, of used'] m
      have "merge_whites (m # out) used' = (m # out, used')" by simp
      with m(1) show ?thesis
        by (simp add: merge_whites_skip[OF lt False] merge_whites_skip[OF lt nd])
    qed
  qed
qed

lemma shift_from_in_range:
  "list_all (\<lambda>w. wx w < 20000) ws \<Longrightarrow> shift_from ws = tl ws"
  by (induction ws rule: shift_from.induct) simp_all

lemma merge_whites_no_dup:
  "list_all (\<lambda>w. wx w < 20000) ws \<Longrightarrow> \<not> adjacent_dup (fst (merge_whites ws used))"
proof (induction ws used rule: merge_whites.induct)
  case (1 used)
  show ?case by simp
next
  case (2 w used)
  show ?case by simp
next
  case (3 w w2 rest used)
  from "3.prems" have lt: "wx w < 20000" and r: "list_all (\<lambda>w. wx w < 20000) (w2 # rest)"
    by simp_all
  show ?case
  proof (cases "mergeable w w2")
    case True
    have sh: "shift_from (w2 # rest) = rest"
      using shift_from_in_range[OF r] by simp
    have "list_all (\<lambda>w. wx w < 20000)
        (w\<lparr>data := Arena (and_rows (data w) (data w2))\<rparr> # shift_from (w2 # rest))"
      using r lt by (simp only: sh) simp
    from "3.IH"(1)[OF lt True this] show ?thesis
      by (simp add: merge_whites_join[OF lt True])
  next
    case False
    obtain m out where m: "fst (merge_whites (w2 # rest) used) = m # out"
      "wx m = wx w2" "wy m = wy w2" "ht m = ht w2"
      using merge_whites_head[of w2 rest used] by blast
    from False m have nd: "\<not> (mergeable w m)"
      by (simp add: mergeable_def)
    have "\<not> adjacent_dup (m # out)"
      using "3.IH"(2)[OF lt False r] by (simp add: m(1))
    with nd have "\<not> adjacent_dup (w # m # out)" by simp
    then show ?thesis
      by (simp add: merge_whites_skip[OF lt False] m(1))
  qed
qed

lemma merge_whites_prefix:
  "list_all (\<lambda>w. wx w < 20000) pre \<Longrightarrow> \<not> adjacent_dup (pre @ [x]) \<Longrightarrow>
   merge_whites (pre @ x # xs) used
     = (pre @ fst (merge_whites (x # xs) used), snd (merge_whites (x # xs) used))"
proof (induction pre)
  case Nil
  show ?case by simp
next
  case (Cons p ps)
  from Cons.prems have lt: "wx p < 20000" and r: "list_all (\<lambda>w. wx w < 20000) ps" by simp_all
  show ?case
  proof (cases ps)
    case Nil
    with Cons.prems have nm: "\<not> mergeable p x" by simp
    from Nil show ?thesis by (simp add: merge_whites_skip[OF lt nm])
  next
    case (Cons q qs)
    with Cons.prems have nm: "\<not> mergeable p q" and nd: "\<not> adjacent_dup (ps @ [x])" by simp_all
    from Cons.IH[OF r nd] Cons show ?thesis by (simp add: merge_whites_skip[OF lt nm])
  qed
qed

lemma merge_whites_no_dup_id:
  "list_all (\<lambda>w. wx w < 20000) ws \<Longrightarrow> \<not> adjacent_dup ws \<Longrightarrow> merge_whites ws used = (ws, used)"
proof (induction ws)
  case Nil
  show ?case by simp
next
  case (Cons p ps)
  from Cons.prems have lt: "wx p < 20000" and r: "list_all (\<lambda>w. wx w < 20000) ps" by simp_all
  show ?case
  proof (cases ps)
    case Nil
    then show ?thesis by simp
  next
    case (Cons q qs)
    with Cons.prems have nm: "\<not> mergeable p q" and nd: "\<not> adjacent_dup ps" by simp_all
    from Cons.IH[OF r nd] Cons show ?thesis by (simp add: merge_whites_skip[OF lt nm])
  qed
qed

lemma merge_whites_run_ends:
  assumes lt: "wx a < 20000" and r: "list_all (\<lambda>w. wx w < 20000) rest"
    and e: "rest = [] \<or> \<not> mergeable a (hd rest)"
    and xy: "wx a' = wx a" "wy a' = wy a" "ht a' = ht a"
  shows "merge_whites (a' # rest) used
      = (a' # fst (merge_whites rest used), snd (merge_whites rest used))"
proof (cases rest)
  case Nil
  then show ?thesis by simp
next
  case (Cons q qs)
  with e xy have nm: "\<not> mergeable a' q" by (simp add: mergeable_def)
  from lt xy have lt': "wx a' < 20000" by simp
  from Cons show ?thesis by (simp add: merge_whites_skip[OF lt' nm])
qed

text \<open>
  C6. Whenever the merge loop of \<^verbatim>\<open>init_whites\<close> combines two consecutive height-6 pieces
  \<open>a\<close> and \<open>b\<close> at the same (x, y), the piece that remains is \<open>a\<close> with a fresh six-row
  bitmap with \<open>merged[i] = a[i] AND b[i]\<close> for each of the six rows, so every bit set in a
  merged row is set in the same row of both inputs. This holds wherever the pair stands in the
  array: behind any pieces the loop has passed without merging, and in front of any pieces.
  The loop goes on from the merged piece, so that a further piece at the same position is
  combined with the merged bitmap in the same way and the piece finally left at the position
  has its bits among those of \<open>a\<close> and \<open>b\<close>; when no such piece follows, the merged piece is
  in the result as it is. An array without such a pair is returned unchanged.
\<close>

theorem merge_whites_rows_are_and:
  "(wx a < 20000 \<and> mergeable a b \<longrightarrow>
     merge_whites [a, b] used
       = ([a\<lparr>data := Arena (and_rows (data a) (data b))\<rparr>], used + 6)
     \<and> length (and_rows (data a) (data b)) = 6
     \<and> (\<forall>i<6. and_rows (data a) (data b) ! i = rows_of (data a) ! i AND rows_of (data b) ! i
          \<and> (\<forall>n. bit (and_rows (data a) (data b) ! i) n \<longrightarrow>
                 bit (rows_of (data a) ! i) n \<and> bit (rows_of (data b) ! i) n))
     \<and> (\<exists>m out. fst (merge_whites (a # b # rest) used) = m # out
          \<and> wx m = wx a \<and> wy m = wy a \<and> ht m = 6
          \<and> (\<forall>i<6. \<forall>n. bit (rows_of (data m) ! i) n \<longrightarrow>
                 bit (rows_of (data a) ! i) n \<and> bit (rows_of (data b) ! i) n)))
   \<and> (list_all (\<lambda>w. wx w < 20000) (pre @ [a]) \<and> \<not> adjacent_dup (pre @ [a]) \<and> mergeable a b \<longrightarrow>
        merge_whites (pre @ a # b # rest) used
          = (pre @ fst (merge_whites
                     (a\<lparr>data := Arena (and_rows (data a) (data b))\<rparr> # shift_from (b # rest))
                     (used + 6)),
             snd (merge_whites
                     (a\<lparr>data := Arena (and_rows (data a) (data b))\<rparr> # shift_from (b # rest))
                     (used + 6))))
   \<and> (list_all (\<lambda>w. wx w < 20000) (pre @ a # b # rest) \<and> \<not> adjacent_dup (pre @ [a])
        \<and> mergeable a b \<and> (rest = [] \<or> \<not> mergeable a (hd rest)) \<longrightarrow>
        merge_whites (pre @ a # b # rest) used
          = (pre @ a\<lparr>data := Arena (and_rows (data a) (data b))\<rparr>
                 # fst (merge_whites rest (used + 6)),
             snd (merge_whites rest (used + 6))))
   \<and> (list_all (\<lambda>w. wx w < 20000) ws \<and> \<not> adjacent_dup ws \<longrightarrow>
        merge_whites ws used = (ws, used))"
proof -
  let ?a' = "a\<lparr>data := Arena (and_rows (data a) (data b))\<rparr>"
  have p1: "wx a < 20000 \<and> mergeable a b \<longrightarrow>
     merge_whites [a, b] used = ([?a'], used + 6)
     \<and> length (and_rows (data a) (data b)) = 6
     \<and> (\<forall>i<6. and_rows (data a) (data b) ! i = rows_of (data a) ! i AND rows_of (data b) ! i
          \<and> (\<forall>n. bit (and_rows (data a) (data b) ! i) n \<longrightarrow>
                 bit (rows_of (data a) ! i) n \<and> bit (rows_of (data b) ! i) n))
     \<and> (\<exists>m out. fst (merge_whites (a # b # rest) used) = m # out
          \<and> wx m = wx a \<and> wy m = wy a \<and> ht m = 6
          \<and> (\<forall>i<6. \<forall>n. bit (rows_of (data m) ! i) n \<longrightarrow>
                 bit (rows_of (data a) ! i) n \<and> bit (rows_of (data b) ! i) n))"
  proof (intro impI, elim conjE)
    assume lt: "wx a < 20000" and mg: "mergeable a b"
    from lt mg have ltb: "wx b < 20000" by (simp add: mergeable_def)
    have two: "merge_whites [a, b] used = ([?a'], used + 6)"
      using ltb by (simp add: merge_whites_join[OF lt mg])
    have len: "length (and_rows (data a) (data b)) = 6" by (simp add: and_rows_def)
    have rows: "\<forall>i<6. and_rows (data a) (data b) ! i = rows_of (data a) ! i AND rows_of (data b) ! i
          \<and> (\<forall>n. bit (and_rows (data a) (data b) ! i) n \<longrightarrow>
                 bit (rows_of (data a) ! i) n \<and> bit (rows_of (data b) ! i) n)"
      by (simp add: and_rows_nth bit_and_iff)
    obtain m out where m: "fst (merge_whites (?a' # shift_from (b # rest)) (used + 6)) = m # out"
        "wx m = wx ?a'" "wy m = wy ?a'" "ht m = ht ?a'"
      and sub: "\<forall>i<6. \<forall>n. bit (rows_of (data m) ! i) n \<longrightarrow> bit (rows_of (data ?a') ! i) n"
      using merge_whites_head[of ?a' "shift_from (b # rest)" "used + 6"] by blast
    have sub2: "\<forall>i<6. \<forall>n. bit (rows_of (data m) ! i) n \<longrightarrow>
                   bit (rows_of (data a) ! i) n \<and> bit (rows_of (data b) ! i) n"
    proof (intro allI impI)
      fix i n :: nat assume i: "i < 6" and b: "bit (rows_of (data m) ! i) n"
      with sub have "bit (rows_of (data ?a') ! i) n" by blast
      with i show "bit (rows_of (data a) ! i) n \<and> bit (rows_of (data b) ! i) n"
        by (simp add: and_rows_nth bit_and_iff)
    qed
    from mg have h6: "ht a = 6" by (simp add: mergeable_def)
    have "fst (merge_whites (a # b # rest) used) = m # out"
      using m(1) by (simp add: merge_whites_join[OF lt mg])
    with m(2-4) h6 sub2
    have "\<exists>m out. fst (merge_whites (a # b # rest) used) = m # out
            \<and> wx m = wx a \<and> wy m = wy a \<and> ht m = 6
            \<and> (\<forall>i<6. \<forall>n. bit (rows_of (data m) ! i) n \<longrightarrow>
                   bit (rows_of (data a) ! i) n \<and> bit (rows_of (data b) ! i) n)"
      by auto
    with two len rows show "merge_whites [a, b] used = ([?a'], used + 6)
     \<and> length (and_rows (data a) (data b)) = 6
     \<and> (\<forall>i<6. and_rows (data a) (data b) ! i = rows_of (data a) ! i AND rows_of (data b) ! i
          \<and> (\<forall>n. bit (and_rows (data a) (data b) ! i) n \<longrightarrow>
                 bit (rows_of (data a) ! i) n \<and> bit (rows_of (data b) ! i) n))
     \<and> (\<exists>m out. fst (merge_whites (a # b # rest) used) = m # out
          \<and> wx m = wx a \<and> wy m = wy a \<and> ht m = 6
          \<and> (\<forall>i<6. \<forall>n. bit (rows_of (data m) ! i) n \<longrightarrow>
                 bit (rows_of (data a) ! i) n \<and> bit (rows_of (data b) ! i) n))"
      by blast
  qed
  have p2: "list_all (\<lambda>w. wx w < 20000) (pre @ [a]) \<and> \<not> adjacent_dup (pre @ [a]) \<and> mergeable a b \<longrightarrow>
        merge_whites (pre @ a # b # rest) used
          = (pre @ fst (merge_whites (?a' # shift_from (b # rest)) (used + 6)),
             snd (merge_whites (?a' # shift_from (b # rest)) (used + 6)))"
  proof (intro impI, elim conjE)
    assume r: "list_all (\<lambda>w. wx w < 20000) (pre @ [a])" and nd: "\<not> adjacent_dup (pre @ [a])"
      and mg: "mergeable a b"
    from r have rp: "list_all (\<lambda>w. wx w < 20000) pre" and lt: "wx a < 20000" by simp_all
    from merge_whites_prefix[OF rp nd, of "b # rest" used]
    show "merge_whites (pre @ a # b # rest) used
          = (pre @ fst (merge_whites (?a' # shift_from (b # rest)) (used + 6)),
             snd (merge_whites (?a' # shift_from (b # rest)) (used + 6)))"
      by (simp add: merge_whites_join[OF lt mg])
  qed
  have p3: "list_all (\<lambda>w. wx w < 20000) (pre @ a # b # rest) \<and> \<not> adjacent_dup (pre @ [a])
        \<and> mergeable a b \<and> (rest = [] \<or> \<not> mergeable a (hd rest)) \<longrightarrow>
        merge_whites (pre @ a # b # rest) used
          = (pre @ ?a' # fst (merge_whites rest (used + 6)), snd (merge_whites rest (used + 6)))"
  proof (intro impI, elim conjE)
    assume r: "list_all (\<lambda>w. wx w < 20000) (pre @ a # b # rest)"
      and nd: "\<not> adjacent_dup (pre @ [a])"
      and mg: "mergeable a b" and e: "rest = [] \<or> \<not> mergeable a (hd rest)"
    from r have rp: "list_all (\<lambda>w. wx w < 20000) pre" and lt: "wx a < 20000"
      and rb: "list_all (\<lambda>w. wx w < 20000) (b # rest)"
      and rr: "list_all (\<lambda>w. wx w < 20000) rest" by simp_all
    have sh: "shift_from (b # rest) = rest" using shift_from_in_range[OF rb] by simp
    have run: "merge_whites (?a' # rest) (used + 6)
        = (?a' # fst (merge_whites rest (used + 6)), snd (merge_whites rest (used + 6)))"
      by (rule merge_whites_run_ends[OF lt rr e]) simp_all
    from merge_whites_prefix[OF rp nd, of "b # rest" used]
    show "merge_whites (pre @ a # b # rest) used
          = (pre @ ?a' # fst (merge_whites rest (used + 6)), snd (merge_whites rest (used + 6)))"
      by (simp add: merge_whites_join[OF lt mg] sh run)
  qed
  have p4: "list_all (\<lambda>w. wx w < 20000) ws \<and> \<not> adjacent_dup ws \<longrightarrow>
        merge_whites ws used = (ws, used)"
    using merge_whites_no_dup_id by blast
  from p1 p2 p3 p4 show ?thesis by blast
qed

theorem merge_whites_rows_are_and_witness:
  "merge_whites
     [\<lparr>wx = 100, wy = 50, hasj = False, ht = 6, data = Static generictop\<rparr>,
      \<lparr>wx = 100, wy = 50, hasj = False, ht = 6, data = Static sbot\<rparr>] 0
   = ([\<lparr>wx = 100, wy = 50, hasj = False, ht = 6,
        data = Arena [0x803F, 0x003F, 0x003F, 0x003F, 0x003F, 0x007F]\<rparr>], 6)
   \<and> merge_whites
     [\<lparr>wx = 60, wy = 40, hasj = False, ht = 6, data = Static eleft\<rparr>,
      \<lparr>wx = 100, wy = 50, hasj = False, ht = 6, data = Static generictop\<rparr>,
      \<lparr>wx = 100, wy = 50, hasj = False, ht = 6, data = Static sbot\<rparr>,
      \<lparr>wx = 100, wy = 50, hasj = False, ht = 4, data = Static neglitch\<rparr>,
      \<lparr>wx = 130, wy = 20, hasj = False, ht = 6, data = Static generictop\<rparr>] 0
   = ([\<lparr>wx = 60, wy = 40, hasj = False, ht = 6, data = Static eleft\<rparr>,
       \<lparr>wx = 100, wy = 50, hasj = False, ht = 6,
        data = Arena [0x803F, 0x003F, 0x003F, 0x003F, 0x003F, 0x007F]\<rparr>,
       \<lparr>wx = 100, wy = 50, hasj = False, ht = 4, data = Static neglitch\<rparr>,
       \<lparr>wx = 130, wy = 20, hasj = False, ht = 6, data = Static generictop\<rparr>], 6)"
proof -
  let ?p = "\<lparr>wx = 60, wy = 40, hasj = False, ht = 6, data = Static eleft\<rparr>"
  let ?a = "\<lparr>wx = 100, wy = 50, hasj = False, ht = 6, data = Static generictop\<rparr>"
  let ?b = "\<lparr>wx = 100, wy = 50, hasj = False, ht = 6, data = Static sbot\<rparr>"
  let ?c = "\<lparr>wx = 100, wy = 50, hasj = False, ht = 4, data = Static neglitch\<rparr>"
  let ?d = "\<lparr>wx = 130, wy = 20, hasj = False, ht = 6, data = Static generictop\<rparr>"
  have pre: "wx ?a < 20000 \<and> mergeable ?a ?b" by (simp add: mergeable_def)
  have h: "list_all (\<lambda>w. wx w < 20000) ([?p] @ ?a # ?b # [?c, ?d]) \<and> \<not> adjacent_dup ([?p] @ [?a])
        \<and> mergeable ?a ?b \<and> ([?c, ?d] = [] \<or> \<not> mergeable ?a (hd [?c, ?d]))"
    by (simp add: mergeable_def)
  have t: "list_all (\<lambda>w. wx w < 20000) [?c, ?d] \<and> \<not> adjacent_dup [?c, ?d]"
    by (simp add: mergeable_def)
  have ev: "and_rows (Static generictop) (Static sbot)
      = [0x803F, 0x003F, 0x003F, 0x003F, 0x003F, 0x007F]"
    by (simp add: and_rows_unfold generictop_def sbot_def)
  from merge_whites_rows_are_and[of ?a ?b 0 "[]" "[?p]" "[?c, ?d]"] pre
  have one: "merge_whites [?a, ?b] 0 = ([?a\<lparr>data := Arena (and_rows (data ?a) (data ?b))\<rparr>], 0 + 6)"
    by blast
  from merge_whites_rows_are_and[of ?a ?b 6 "[]" "[?p]" "[?c, ?d]"] t
  have tail: "merge_whites [?c, ?d] 6 = ([?c, ?d], 6)"
    by blast
  from merge_whites_rows_are_and[of ?a ?b 0 "[?c, ?d]" "[?p]" "[?c, ?d]"] h
  have "merge_whites ([?p] @ ?a # ?b # [?c, ?d]) 0
          = ([?p] @ ?a\<lparr>data := Arena (and_rows (data ?a) (data ?b))\<rparr>
                 # fst (merge_whites [?c, ?d] (0 + 6)),
             snd (merge_whites [?c, ?d] (0 + 6)))"
    by blast
  with one tail show ?thesis by (simp add: ev)
qed

text \<open>
  C7. The merge pass of \<^verbatim>\<open>init_whites\<close> is idempotent: run on its own output it returns
  the same piece list (and allocates nothing), so no further piece is removed; and when the
  pieces lie in front of the sentinel (x below 20000) the output has no two consecutive
  pieces with equal (x, y) and both heights 6. Sortedness of the list is not needed.
\<close>

theorem merge_whites_idempotent:
  "merge_whites (fst (merge_whites ws used)) used' = (fst (merge_whites ws used), used')
   \<and> (list_all (\<lambda>w. wx w < 20000) ws \<longrightarrow> \<not> adjacent_dup (fst (merge_whites ws used)))"
  using merge_whites_idem[of ws used used'] merge_whites_no_dup[of ws used] by blast

theorem merge_whites_idempotent_witness:
  "merge_whites (fst (merge_whites
     [\<lparr>wx = 100, wy = 50, hasj = False, ht = 6, data = Static generictop\<rparr>,
      \<lparr>wx = 100, wy = 50, hasj = False, ht = 6, data = Static sbot\<rparr>,
      \<lparr>wx = 100, wy = 50, hasj = False, ht = 6, data = Static nebot\<rparr>,
      \<lparr>wx = 100, wy = 50, hasj = False, ht = 4, data = Static neglitch\<rparr>,
      \<lparr>wx = 130, wy = 20, hasj = False, ht = 6, data = Static eleft\<rparr>] 0)) 12
   = ([\<lparr>wx = 100, wy = 50, hasj = False, ht = 6,
        data = Arena [0x8001, 0x0003, 0x0007, 0x000F, 0x001F, 0x007F]\<rparr>,
       \<lparr>wx = 100, wy = 50, hasj = False, ht = 4, data = Static neglitch\<rparr>,
       \<lparr>wx = 130, wy = 20, hasj = False, ht = 6, data = Static eleft\<rparr>], 12)
   \<and> \<not> adjacent_dup (fst (merge_whites
     [\<lparr>wx = 100, wy = 50, hasj = False, ht = 6, data = Static generictop\<rparr>,
      \<lparr>wx = 100, wy = 50, hasj = False, ht = 6, data = Static sbot\<rparr>,
      \<lparr>wx = 100, wy = 50, hasj = False, ht = 6, data = Static nebot\<rparr>,
      \<lparr>wx = 100, wy = 50, hasj = False, ht = 4, data = Static neglitch\<rparr>,
      \<lparr>wx = 130, wy = 20, hasj = False, ht = 6, data = Static eleft\<rparr>] 0))"
proof -
  let ?ws = "[\<lparr>wx = 100, wy = 50, hasj = False, ht = 6, data = Static generictop\<rparr>,
      \<lparr>wx = 100, wy = 50, hasj = False, ht = 6, data = Static sbot\<rparr>,
      \<lparr>wx = 100, wy = 50, hasj = False, ht = 6, data = Static nebot\<rparr>,
      \<lparr>wx = 100, wy = 50, hasj = False, ht = 4, data = Static neglitch\<rparr>,
      \<lparr>wx = 130, wy = 20, hasj = False, ht = 6, data = Static eleft\<rparr>]"
  have run: "fst (merge_whites ?ws 0)
      = [\<lparr>wx = 100, wy = 50, hasj = False, ht = 6,
          data = Arena [0x8001, 0x0003, 0x0007, 0x000F, 0x001F, 0x007F]\<rparr>,
         \<lparr>wx = 100, wy = 50, hasj = False, ht = 4, data = Static neglitch\<rparr>,
         \<lparr>wx = 130, wy = 20, hasj = False, ht = 6, data = Static eleft\<rparr>]"
    by (simp add: merge_whites.simps mergeable_def and_rows_unfold generictop_def sbot_def
        nebot_def)
  have rng: "list_all (\<lambda>w. wx w < 20000) ?ws" by simp
  from merge_whites_idempotent[of ?ws 0 12] rng
  show ?thesis by (simp only: run) simp
qed

subsection \<open>Finding junctions\<close>

lemma far_apart_add_endpoint:
  "far_apart js \<Longrightarrow> far_apart (add_endpoint js x y)"
proof (cases "scan_junctions js x y")
  case (Some j)
  assume "far_apart js"
  with Some show ?thesis by (simp add: add_endpoint_def)
next
  case None
  assume fa: "far_apart js"
  from None have nn: "\<forall>j \<in> set js. \<not> near j x y"
    by (auto simp: scan_junctions_def find_None_iff)
  have "far_apart (js @ [\<lparr>jx = x, jy = y\<rparr>])"
    unfolding far_apart_def
  proof (intro allI impI)
    fix i k assume i: "i < length (js @ [\<lparr>jx = x, jy = y\<rparr>])" and k: "k < i"
    show "\<not> near ((js @ [\<lparr>jx = x, jy = y\<rparr>]) ! k)
        (jx ((js @ [\<lparr>jx = x, jy = y\<rparr>]) ! i)) (jy ((js @ [\<lparr>jx = x, jy = y\<rparr>]) ! i))"
    proof (cases "i < length js")
      case True
      with k fa show ?thesis by (simp add: far_apart_def nth_append)
    next
      case False
      with i have "i = length js" by simp
      with k nn show ?thesis by (simp add: nth_append)
    qed
  qed
  with None show ?thesis by (simp add: add_endpoint_def)
qed

lemma far_apart_find_junctions:
  "far_apart js \<Longrightarrow> far_apart (find_junctions lines js)"
  by (induction lines arbitrary: js) (simp_all add: far_apart_add_endpoint)

lemma add_endpoint_prefix: "\<exists>ys. add_endpoint js x y = js @ ys"
  by (simp add: add_endpoint_def split: option.split)

lemma find_junctions_prefix: "\<exists>ys. find_junctions lines js = js @ ys"
proof (induction lines arbitrary: js)
  case Nil
  show ?case by simp
next
  case (Cons l ls)
  obtain a where a: "add_endpoint js (startx l) (starty l) = js @ a"
    using add_endpoint_prefix by blast
  obtain b where b: "add_endpoint (js @ a) (endx l) (endy l) = (js @ a) @ b"
    using add_endpoint_prefix by blast
  obtain c where c: "find_junctions ls ((js @ a) @ b) = ((js @ a) @ b) @ c"
    using Cons.IH by blast
  from a b c show ?case by simp
qed

lemma find_app:
  "find P (xs @ ys) = (case find P xs of None \<Rightarrow> find P ys | Some x \<Rightarrow> Some x)"
  by (induction xs) simp_all

lemma scan_append_Some:
  "scan_junctions js x y = Some j \<Longrightarrow> scan_junctions (js @ ys) x y = Some j"
  by (simp add: scan_junctions_def find_app)

lemma scan_add_endpoint:
  "scan_junctions (add_endpoint js x y) x y \<noteq> None"
  by (cases "scan_junctions js x y")
     (auto simp: add_endpoint_def scan_junctions_def find_app near_def find_None_iff2
       split: option.splits)

lemma find_junctions_covers:
  "l \<in> set lines \<Longrightarrow>
   scan_junctions (find_junctions lines js) (startx l) (starty l) \<noteq> None
   \<and> scan_junctions (find_junctions lines js) (endx l) (endy l) \<noteq> None"
proof (induction lines arbitrary: js)
  case Nil
  then show ?case by simp
next
  case (Cons a ls)
  let ?js1 = "add_endpoint js (startx a) (starty a)"
  let ?js2 = "add_endpoint ?js1 (endx a) (endy a)"
  show ?case
  proof (cases "l = a")
    case True
    obtain p where p: "scan_junctions ?js1 (startx a) (starty a) = Some p"
      using scan_add_endpoint[of js "startx a" "starty a"] by blast
    obtain b where b: "?js2 = ?js1 @ b"
      using add_endpoint_prefix by blast
    obtain q where q: "scan_junctions ?js2 (endx a) (endy a) = Some q"
      using scan_add_endpoint[of ?js1 "endx a" "endy a"] by blast
    obtain c where c: "find_junctions ls ?js2 = ?js2 @ c"
      using find_junctions_prefix by blast
    from p b have "scan_junctions ?js2 (startx a) (starty a) = Some p"
      by (simp add: scan_append_Some)
    then have "scan_junctions (?js2 @ c) (startx a) (starty a) = Some p"
      by (rule scan_append_Some)
    moreover from q have "scan_junctions (?js2 @ c) (endx a) (endy a) = Some q"
      by (rule scan_append_Some)
    ultimately show ?thesis using True c by simp
  next
    case False
    with Cons.prems have "l \<in> set ls" by simp
    from Cons.IH[OF this, of ?js2] show ?thesis by simp
  qed
qed

text \<open>
  C1 (counterexample). Three walls: an E wall from (100, 50) to (106, 50), an S wall from
  (103, 50) to (103, 60) and an S wall from (97, 50) to (97, 60). The pass makes junctions
  at (100, 50), (106, 50), (103, 60) and (97, 60). The endpoints (103, 50) and (106, 50)
  differ by 3 pixels and yet stop the scan at different junctions; the endpoints (97, 50)
  and (103, 50) differ by 6 pixels and yet both joined the junction (100, 50).
\<close>

theorem find_junctions_clusters_counterexample:
  "find_junctions
     [\<lparr>startx = 100, starty = 50, endx = 106, endy = 50, length_l = 6, newtype = NEW_E,
        h1 = 0, h2 = 0\<rparr>,
      \<lparr>startx = 103, starty = 50, endx = 103, endy = 60, length_l = 10, newtype = NEW_S,
        h1 = 0, h2 = 0\<rparr>,
      \<lparr>startx = 97, starty = 50, endx = 97, endy = 60, length_l = 10, newtype = NEW_S,
        h1 = 0, h2 = 0\<rparr>] []
   = [\<lparr>jx = 100, jy = 50\<rparr>, \<lparr>jx = 106, jy = 50\<rparr>, \<lparr>jx = 103, jy = 60\<rparr>,
      \<lparr>jx = 97, jy = 60\<rparr>]
   \<and> scan_junctions [\<lparr>jx = 100, jy = 50\<rparr>, \<lparr>jx = 106, jy = 50\<rparr>, \<lparr>jx = 103, jy = 60\<rparr>,
        \<lparr>jx = 97, jy = 60\<rparr>] 103 50 = Some \<lparr>jx = 100, jy = 50\<rparr>
   \<and> scan_junctions [\<lparr>jx = 100, jy = 50\<rparr>, \<lparr>jx = 106, jy = 50\<rparr>, \<lparr>jx = 103, jy = 60\<rparr>,
        \<lparr>jx = 97, jy = 60\<rparr>] 106 50 = Some \<lparr>jx = 106, jy = 50\<rparr>
   \<and> scan_junctions [\<lparr>jx = 100, jy = 50\<rparr>, \<lparr>jx = 106, jy = 50\<rparr>, \<lparr>jx = 103, jy = 60\<rparr>,
        \<lparr>jx = 97, jy = 60\<rparr>] 97 50 = Some \<lparr>jx = 100, jy = 50\<rparr>"
  by (simp add: add_endpoint_def scan_junctions_def near_def)

text \<open>
  C1 (amended). After the junction-finding pass of \<^verbatim>\<open>init_walls\<close> over both endpoints of
  every wall, in wall-list order, every wall endpoint is within 3 pixels on both axes of a
  junction of the array (the first such junction in array order is the one it joined), and
  no two junctions of the array are within 3 pixels of each other on both axes. Two
  endpoints within 3 pixels of each other need not have joined the same junction, and two
  endpoints of one junction may be up to 6 pixels apart.
\<close>

theorem find_junctions_covers_and_separates:
  "(\<forall>l \<in> set lines.
       (\<exists>j. scan_junctions (find_junctions lines []) (startx l) (starty l) = Some j
            \<and> j \<in> set (find_junctions lines []) \<and> near j (startx l) (starty l))
     \<and> (\<exists>j. scan_junctions (find_junctions lines []) (endx l) (endy l) = Some j
            \<and> j \<in> set (find_junctions lines []) \<and> near j (endx l) (endy l)))
   \<and> far_apart (find_junctions lines [])"
proof (intro conjI ballI)
  fix l assume l: "l \<in> set lines"
  from find_junctions_covers[OF l, of "[]"]
  obtain j where "scan_junctions (find_junctions lines []) (startx l) (starty l) = Some j"
    by blast
  then show "\<exists>j. scan_junctions (find_junctions lines []) (startx l) (starty l) = Some j
            \<and> j \<in> set (find_junctions lines []) \<and> near j (startx l) (starty l)"
    by (auto simp: scan_junctions_def find_Some_iff)
next
  fix l assume l: "l \<in> set lines"
  from find_junctions_covers[OF l, of "[]"]
  obtain j where "scan_junctions (find_junctions lines []) (endx l) (endy l) = Some j"
    by blast
  then show "\<exists>j. scan_junctions (find_junctions lines []) (endx l) (endy l) = Some j
            \<and> j \<in> set (find_junctions lines []) \<and> near j (endx l) (endy l)"
    by (auto simp: scan_junctions_def find_Some_iff)
next
  show "far_apart (find_junctions lines [])"
    by (rule far_apart_find_junctions) (simp add: far_apart_def)
qed

theorem find_junctions_covers_and_separates_witness:
  "far_apart
     [\<lparr>jx = 100, jy = 50\<rparr>, \<lparr>jx = 106, jy = 50\<rparr>, \<lparr>jx = 103, jy = 60\<rparr>, \<lparr>jx = 97, jy = 60\<rparr>]
   \<and> scan_junctions
       [\<lparr>jx = 100, jy = 50\<rparr>, \<lparr>jx = 106, jy = 50\<rparr>, \<lparr>jx = 103, jy = 60\<rparr>, \<lparr>jx = 97, jy = 60\<rparr>]
       103 50 \<noteq> None"
proof -
  let ?l1 = "\<lparr>startx = 100, starty = 50, endx = 106, endy = 50, length_l = 6, newtype = NEW_E,
        h1 = 0, h2 = 0\<rparr>"
  let ?l2 = "\<lparr>startx = 103, starty = 50, endx = 103, endy = 60, length_l = 10, newtype = NEW_S,
        h1 = 0, h2 = 0\<rparr>"
  let ?l3 = "\<lparr>startx = 97, starty = 50, endx = 97, endy = 60, length_l = 10, newtype = NEW_S,
        h1 = 0, h2 = 0\<rparr>"
  have run: "find_junctions [?l1, ?l2, ?l3] []
      = [\<lparr>jx = 100, jy = 50\<rparr>, \<lparr>jx = 106, jy = 50\<rparr>, \<lparr>jx = 103, jy = 60\<rparr>, \<lparr>jx = 97, jy = 60\<rparr>]"
    by (simp add: add_endpoint_def scan_junctions_def near_def)
  have mem: "?l2 \<in> set [?l1, ?l2, ?l3]" by simp
  from find_junctions_covers_and_separates[of "[?l1, ?l2, ?l3]"] mem
  have "(\<exists>j. scan_junctions (find_junctions [?l1, ?l2, ?l3] []) (startx ?l2) (starty ?l2) = Some j)
      \<and> far_apart (find_junctions [?l1, ?l2, ?l3] [])"
    by blast
  then show ?thesis by (simp only: run) auto
qed

subsection \<open>Clipping at the screen edges\<close>

























subsection \<open>The rule for a South wall meeting a Southeast wall\<close>

lemma wall_dir_S: "newtype line = NEW_S \<Longrightarrow> wall_dir line n = (if n then 0 else 8)"
  by (simp add: wall_dir_def)

lemma wall_dir_SE: "newtype line = NEW_SE \<Longrightarrow> wall_dir line n = (if n then 14 else 6)"
  by (simp add: wall_dir_def)

text \<open>
  C2 (counterexample). An S wall and an SE wall that share their start point (100, 50):
  \<^verbatim>\<open>close_whites\<close> sets the default bounds and calls \<^verbatim>\<open>one_close\<close> for the endpoint pairs
  at (100, 50), which adds no piece; the S wall's \<^verbatim>\<open>h2\<close> stays at its length, 40, and is
  not length - 6.
\<close>

theorem one_close_south_southeast_counterexample:
  "close_whites endrec_far [wall_S_down, wall_SE_down] []
   = Some ([wall_S_down\<lparr>h1 := 6, h2 := 40\<rparr>, wall_SE_down\<lparr>h1 := 6, h2 := 30\<rparr>], [])"
  by (simp add: close_whites_def close_line_def set_defaults_def wall_S_down_def
      wall_SE_down_def endrec_far_def close_pair_def in_box_def endpoint_x_def endpoint_y_def one_close_def
      wall_dir_def case0_size_def case2_count_def Let_def)

text \<open>
  C2 (amended). The rule applies when the end of the South wall meets the end of the
  Southeast wall (directions 0 and 14), with the South wall as \<^verbatim>\<open>line\<close>. If the South
  wall's \<^verbatim>\<open>h2\<close> is at least its length, as at the default, \<^verbatim>\<open>one_close\<close> appends a
  height-6 \<^verbatim>\<open>npatch\<close> piece at (endx, endy - 6), 6 pixels back from the wall's end, and sets
  \<^verbatim>\<open>h2\<close> to length - 6; if \<^verbatim>\<open>h2\<close> lies in [length - 6, length) it routes the same piece
  through \<^verbatim>\<open>replace_white_2\<close> with target (startx, starty + h2) and sets \<^verbatim>\<open>h2\<close> to
  length - 6; if \<^verbatim>\<open>h2\<close> is already below length - 6 it changes nothing. For the other three
  combinations of endpoints, and with the Southeast wall as \<^verbatim>\<open>line\<close>, it changes nothing.
\<close>

theorem one_close_south_southeast:
  "newtype line = NEW_S \<and> newtype line2 = NEW_SE \<longrightarrow>
     (length_l line - 6 \<le> h2 line \<and> h2 line < length_l line \<longrightarrow>
        one_close line line2 True True ws =
          (line\<lparr>h2 := length_l line - 6\<rparr>,
           replace_white_2 (startx line) (starty line + h2 line)
             (endx line) (endy line - 6) 6 (Static npatch) ws))
   \<and> (length_l line \<le> h2 line \<longrightarrow>
        one_close line line2 True True ws =
          (line\<lparr>h2 := length_l line - 6\<rparr>,
           ws @ [\<lparr>wx = endx line, wy = endy line - 6, hasj = False, ht = 6,
                  data = Static npatch\<rparr>]))
   \<and> (h2 line < length_l line - 6 \<longrightarrow> one_close line line2 True True ws = (line, ws))
   \<and> (\<not> (n \<and> m) \<longrightarrow>
        one_close line line2 n m ws = (line, ws) \<and> one_close line2 line m n ws = (line2, ws))
   \<and> one_close line2 line True True ws = (line2, ws)"
  by (auto simp: one_close_def wall_dir_S wall_dir_SE case0_size_def case2_count_def Let_def
      add_white_2_def add_white_def)


theorem one_close_south_southeast_witness:
  "one_close wall_S_up wall_SE_up True True []
   = (wall_S_up\<lparr>h2 := 34\<rparr>,
      [\<lparr>wx = 100, wy = 44, hasj = False, ht = 6, data = Static npatch\<rparr>])
   \<and> one_close wall_S_up wall_SE_up False True [] = (wall_S_up, [])"
proof -
  have t: "newtype wall_S_up = NEW_S \<and> newtype wall_SE_up = NEW_SE"
    by (simp add: wall_S_up_def wall_SE_up_def)
  have h: "length_l wall_S_up \<le> h2 wall_S_up" by (simp add: wall_S_up_def)
  from one_close_south_southeast[of wall_S_up wall_SE_up "[]" False True] t h
  have "one_close wall_S_up wall_SE_up True True [] =
          (wall_S_up\<lparr>h2 := length_l wall_S_up - 6\<rparr>,
           [] @ [\<lparr>wx = endx wall_S_up, wy = endy wall_S_up - 6, hasj = False, ht = 6,
                  data = Static npatch\<rparr>])
    \<and> one_close wall_S_up wall_SE_up False True [] = (wall_S_up, [])"
    by blast
  then show ?thesis by (simp add: wall_S_up_def)
qed

subsection \<open>A wall with no other wall nearby\<close>


lemma one_close_same_place: "same_place (fst (one_close line line2 n m ws)) line"
  by (simp add: one_close_def same_place_def Let_def split: option.split)

lemma close_pair_same_place: "same_place (fst (close_pair line i line2 j ws)) line"
  using one_close_same_place[of line line2 i j ws]
  by (simp add: close_pair_def same_place_def)

lemma same_place_trans: "same_place a b \<Longrightarrow> same_place b c \<Longrightarrow> same_place a c"
  by (simp add: same_place_def)

lemma same_place_endpoint_x: "same_place a b \<Longrightarrow> endpoint_x a i = endpoint_x b i"
  by (simp add: same_place_def endpoint_x_def)

lemma scan_line2_same_place:
  "scan_line2 cands line i ws = Some (line', ws') \<Longrightarrow> same_place line' line"
proof (induction cands arbitrary: line ws)
  case Nil
  then show ?case by simp
next
  case (Cons c rest)
  show ?case
  proof (cases "startx c < endpoint_x line i + 3")
    case False
    with Cons.prems show ?thesis by (simp add: same_place_def)
  next
    case True
    obtain l1 w1 where p1: "close_pair line i c False ws = (l1, w1)" by force
    obtain l2 w2 where p2: "close_pair l1 i c True w1 = (l2, w2)" by force
    from Cons.prems True p1 p2 have "scan_line2 rest l2 i w2 = Some (line', ws')" by simp
    from Cons.IH[OF this] have a: "same_place line' l2" .
    from close_pair_same_place[of l1 i c True w1] p2 have b: "same_place l2 l1" by simp
    from close_pair_same_place[of line i c False ws] p1 have c: "same_place l1 line" by simp
    from a b c show ?thesis by (blast intro: same_place_trans)
  qed
qed

lemma scan_line2_total:
  "\<exists>c \<in> set cands. \<not> startx c < endpoint_x line i + 3 \<Longrightarrow> scan_line2 cands line i ws \<noteq> None"
proof (induction cands arbitrary: line ws)
  case Nil
  then show ?case by simp
next
  case (Cons c rest)
  show ?case
  proof (cases "startx c < endpoint_x line i + 3")
    case False
    then show ?thesis by simp
  next
    case True
    obtain l1 w1 where p1: "close_pair line i c False ws = (l1, w1)" by force
    obtain l2 w2 where p2: "close_pair l1 i c True w1 = (l2, w2)" by force
    from close_pair_same_place[of l1 i c True w1] p2 have b: "same_place l2 l1" by simp
    from close_pair_same_place[of line i c False ws] p1 have c: "same_place l1 line" by simp
    from b c have "endpoint_x l2 i = endpoint_x line i"
      by (metis same_place_endpoint_x)
    with Cons.prems True have "\<exists>c \<in> set rest. \<not> startx c < endpoint_x l2 i + 3" by auto
    from Cons.IH[OF this] have "scan_line2 rest l2 i w2 \<noteq> None" .
    with True p1 p2 show ?thesis by simp
  qed
qed





lemma close_line_same_place:
  "close_line cands line ws = Some (line', ws') \<Longrightarrow> same_place line' line"
  by (auto simp: close_line_def split: option.splits
      dest!: scan_line2_same_place intro: same_place_trans)

lemma close_line_total:
  assumes "\<exists>c \<in> set cands. \<not> startx c < startx line + 3 \<and> \<not> startx c < endx line + 3"
  shows "close_line cands line ws \<noteq> None"
proof -
  from assms have a: "\<exists>c \<in> set cands. \<not> startx c < endpoint_x line False + 3"
    by (auto simp: endpoint_x_def)
  then obtain l1 w1 where s1: "scan_line2 cands line False ws = Some (l1, w1)"
    using scan_line2_total[OF a, of ws] by auto
  from scan_line2_same_place[OF s1] have "endpoint_x l1 True = endpoint_x line True"
    by (rule same_place_endpoint_x)
  with assms have "\<exists>c \<in> set cands. \<not> startx c < endpoint_x l1 True + 3"
    by (auto simp: endpoint_x_def)
  from scan_line2_total[OF this, of w1] s1 show ?thesis
    by (simp add: close_line_def)
qed




lemma dropWhile_keeps_last:
  "xs \<noteq> [] \<Longrightarrow> \<not> P (last xs) \<Longrightarrow> dropWhile P xs \<noteq> [] \<and> last (dropWhile P xs) = last xs"
  by (induction xs) (auto split: if_splits)

lemma close_loop_total:
  "cands \<noteq> [] \<Longrightarrow>
   \<forall>l \<in> set lines. \<not> endx (last cands) < startx l - 3 \<and> \<not> startx (last cands) < startx l + 3
       \<and> \<not> startx (last cands) < endx l + 3 \<Longrightarrow>
   close_loop lines cands ws \<noteq> None"
proof (induction lines arbitrary: cands ws)
  case Nil
  show ?case by simp
next
  case (Cons line rest)
  let ?cands = "dropWhile (\<lambda>f. endx f < startx line - 3) cands"
  from Cons.prems have "\<not> endx (last cands) < startx line - 3" by simp
  from dropWhile_keeps_last[where P = "\<lambda>f. endx f < startx line - 3", OF Cons.prems(1) this]
  have ne: "?cands \<noteq> []" and la: "last ?cands = last cands" by blast+
  from ne have mem: "last ?cands \<in> set ?cands" by simp
  from Cons.prems(2) la
  have "\<not> startx (last ?cands) < startx line + 3 \<and> \<not> startx (last ?cands) < endx line + 3"
    by simp
  with mem have "\<exists>c \<in> set ?cands. \<not> startx c < startx line + 3 \<and> \<not> startx c < endx line + 3"
    by blast
  from close_line_total[OF this, of ws]
  obtain l1 w1 where cl: "close_line ?cands line ws = Some (l1, w1)" by auto
  from Cons.prems(2) la
  have "\<forall>l \<in> set rest. \<not> endx (last ?cands) < startx l - 3
      \<and> \<not> startx (last ?cands) < startx l + 3 \<and> \<not> startx (last ?cands) < endx l + 3"
    by simp
  from Cons.IH[OF ne this, of w1] cl show ?case by (auto split: option.splits)
qed






lemma norm_line_append:
  "norm_glitch line (norm_endpoint line True (norm_endpoint line False ws)) = ws @ norm_pieces line"
  by (cases "newtype line")
     (simp_all add: norm_pieces_def norm_glitch_def norm_endpoint_def add_white_def)

lemma norm_whites_concat: "norm_whites lines ws = ws @ concat (map norm_pieces lines)"
  by (induction lines arbitrary: ws) (simp_all add: norm_line_append)

































text \<open>
  The pieces of such a wall are not safe from the patches of other walls.
  \<^verbatim>\<open>replace_white_2\<close> finds the patch it replaces by coordinates and height alone and
  takes the first piece of the array that fits. An E wall from (60, 40) to (100, 40) ends on
  an S wall from (100, 10) to (100, 50), 10 pixels above the end of the S wall, where an NE and
  an NNE wall start; no endpoint of another wall is near an endpoint of the E wall. The NE
  wall gives the S wall a patch of height 10 at (100, 40); for the NNE wall the patch at
  (100, 40) is to be replaced by one of height 21, and the first piece found at (100, 40) is
  the end piece of the E wall, which comes earlier in the array: it becomes the patch at
  (100, 29), and the patch of height 10 stays.
\<close>

theorem close_whites_replaces_piece_of_isolated_wall:
  "isolated [wall_E_tee, wall_S_up, wall_NE_corner, wall_NNE_corner] 0
   \<and> norm_whites [wall_E_tee, wall_S_up, wall_NE_corner, wall_NNE_corner] []
     = [\<lparr>wx = 60, wy = 40, hasj = False, ht = 6, data = Static eleft\<rparr>,
        \<lparr>wx = 100, wy = 40, hasj = False, ht = 6, data = Static generictop\<rparr>,
        \<lparr>wx = 100, wy = 10, hasj = False, ht = 6, data = Static generictop\<rparr>,
        \<lparr>wx = 100, wy = 50, hasj = False, ht = 6, data = Static sbot\<rparr>,
        \<lparr>wx = 100, wy = 50, hasj = False, ht = 6, data = Static nebot\<rparr>,
        \<lparr>wx = 130, wy = 20, hasj = False, ht = 6, data = Static generictop\<rparr>,
        \<lparr>wx = 126, wy = 22, hasj = False, ht = 4, data = Static neglitch\<rparr>,
        \<lparr>wx = 100, wy = 50, hasj = False, ht = 6, data = Static nnebot\<rparr>,
        \<lparr>wx = 115, wy = 20, hasj = False, ht = 6, data = Static generictop\<rparr>]
   \<and> close_whites endrec_far [wall_E_tee, wall_S_up, wall_NE_corner, wall_NNE_corner]
       (norm_whites [wall_E_tee, wall_S_up, wall_NE_corner, wall_NNE_corner] [])
     = Some ([wall_E_tee\<lparr>h1 := 16, h2 := 40\<rparr>, wall_S_up\<lparr>h1 := 6, h2 := 19\<rparr>,
              wall_NE_corner\<lparr>h1 := 25, h2 := 25\<rparr>, wall_NNE_corner\<lparr>h1 := 0, h2 := 25\<rparr>],
       [\<lparr>wx = 60, wy = 40, hasj = False, ht = 6, data = Static eleft\<rparr>,
        \<lparr>wx = 100, wy = 29, hasj = False, ht = 21, data = Static npatch\<rparr>,
        \<lparr>wx = 100, wy = 10, hasj = False, ht = 6, data = Static generictop\<rparr>,
        \<lparr>wx = 100, wy = 50, hasj = False, ht = 6, data = Static sbot\<rparr>,
        \<lparr>wx = 100, wy = 50, hasj = False, ht = 6, data = Static nebot\<rparr>,
        \<lparr>wx = 130, wy = 20, hasj = False, ht = 6, data = Static generictop\<rparr>,
        \<lparr>wx = 126, wy = 22, hasj = False, ht = 4, data = Static neglitch\<rparr>,
        \<lparr>wx = 100, wy = 50, hasj = False, ht = 6, data = Static nnebot\<rparr>,
        \<lparr>wx = 115, wy = 20, hasj = False, ht = 6, data = Static generictop\<rparr>,
        \<lparr>wx = 100, wy = 40, hasj = False, ht = 10, data = Static npatch\<rparr>,
        \<lparr>wx = 103, wy = 46, hasj = False, ht = 4, data = Static nepatch\<rparr>,
        \<lparr>wx = 107, wy = 42, hasj = False, ht = 4, data = Static nepatch\<rparr>,
        \<lparr>wx = 111, wy = 38, hasj = False, ht = 4, data = Static nepatch\<rparr>,
        \<lparr>wx = 115, wy = 34, hasj = False, ht = 4, data = Static nepatch\<rparr>,
        \<lparr>wx = 119, wy = 30, hasj = False, ht = 4, data = Static nepatch\<rparr>,
        \<lparr>wx = 123, wy = 26, hasj = False, ht = 4, data = Static nepatch\<rparr>])"
  by code_simp



subsection \<open>The crosshatch overlay\<close>

lemma scan_back_coords:
  "map wcoords xs = map wcoords ys \<Longrightarrow> scan_back w xs = scan_back w ys"
proof (induction xs arbitrary: ys)
  case Nil
  then show ?case by simp
next
  case (Cons x xs)
  then obtain y ys' where ys: "ys = y # ys'" by (cases ys) auto
  with Cons.prems have "wcoords x = wcoords y" and m: "map wcoords xs = map wcoords ys'"
    by simp_all
  then have "wx x = wx y" "wy x = wy y" by (simp_all add: wcoords_def)
  note this m
  with Cons.IH[of ys'] ys show ?case by simp
qed

lemma wcoords_hash_piece [simp]: "wcoords (hash_piece b1 b2 wh) = wcoords wh"
  by (simp add: wcoords_def hash_piece_def)

lemma set_shift_junctions:
  "set (shift_junctions js) \<subseteq> set js \<and> set (tl js) \<subseteq> set (shift_junctions js)"
  by (induction js rule: shift_junctions.induct) auto

lemma set_remove_junction:
  "set (remove_junction js j) \<subseteq> set js"
proof -
  have "set (shift_junctions (drop j js)) \<subseteq> set (drop j js)"
    using set_shift_junctions by blast
  then have "set (shift_junctions (drop j js)) \<subseteq> set js"
    using set_drop_subset by fastforce
  moreover have "set (take j js) \<subseteq> set js" by (rule set_take_subset)
  ultimately show ?thesis by (simp add: remove_junction_def)
qed

lemma remove_junction_keeps:
  assumes "jn \<in> set js" "j < length js" "jn \<noteq> js ! j"
  shows "jn \<in> set (remove_junction js j)"
proof -
  from assms(2) have d: "drop j js = js ! j # drop (Suc j) js"
    by (simp add: Cons_nth_drop_Suc)
  have js: "js = take j js @ js ! j # drop (Suc j) js"
    using assms(2) by (simp add: id_take_nth_drop)
  from assms(1) have "jn \<in> set (take j js @ js ! j # drop (Suc j) js)"
    using js by simp
  with assms(3) have "jn \<in> set (take j js) \<or> jn \<in> set (drop (Suc j) js)" by auto
  moreover have "set (drop (Suc j) js) \<subseteq> set (shift_junctions (drop j js))"
    using set_shift_junctions[of "drop j js"] d by simp
  ultimately show ?thesis by (auto simp: remove_junction_def)
qed

lemma scan_fwd_self_coords:
  "wcoords w = wcoords w' \<Longrightarrow> scan_fwd w xs = scan_fwd w' xs"
  by (induction xs) (simp_all add: wcoords_def)

lemma hash_guard_coords:
  "map wcoords f = map wcoords f' \<Longrightarrow> hash_guard f wh b = hash_guard f' wh b"
  using scan_back_coords[of f f' wh] by (simp add: hash_guard_def no_close_wh_def)

lemma overlaid_ok_mono:
  "overlaid_ok ww f wh b js1 \<Longrightarrow> set js1 \<subseteq> set js \<Longrightarrow> map wcoords f = map wcoords f' \<Longrightarrow>
   overlaid_ok ww f' wh b js"
  using hash_guard_coords[of f f' wh b] by (auto simp: overlaid_ok_def)

lemma whm_loop_stop:
  "\<not> wx wh < ww - 8 \<Longrightarrow>
   whm_loop ww b1 b2 front (wh # behind) js j used = (rev front @ wh # behind, js, j, used)"
  by simp

lemma whm_loop_skip:
  "wx wh < ww - 8 \<Longrightarrow> \<not> hash_guard front wh behind \<Longrightarrow>
   whm_loop ww b1 b2 front (wh # behind) js j used
     = whm_loop ww b1 b2 (wh # front) behind js j used"
  by simp

lemma whm_loop_miss:
  "wx wh < ww - 8 \<Longrightarrow> hash_guard front wh behind \<Longrightarrow> \<not> junction_at js wh (find_j js wh j) \<Longrightarrow>
   whm_loop ww b1 b2 front (wh # behind) js j used
     = whm_loop ww b1 b2 (wh # front) behind js (find_j js wh j) used"
  by simp

lemma whm_loop_hit:
  "wx wh < ww - 8 \<Longrightarrow> hash_guard front wh behind \<Longrightarrow> junction_at js wh (find_j js wh j) \<Longrightarrow>
   whm_loop ww b1 b2 front (wh # behind) js j used
     = whm_loop ww b1 b2 (hash_piece b1 b2 wh # front) behind
         (remove_junction js (find_j js wh j)) (find_j js wh j) (hash_used wh used)"
  by simp

lemmas [simp del] = whm_loop.simps(2)

lemma piece_result_Cons:
  assumes "piece_result ww b1 b2 (w' # front) tail js1 out n"
    and "wcoords w' = wcoords wh" and "set js1 \<subseteq> set js"
  shows "piece_result ww b1 b2 front (wh # tail) js (o' # out) (Suc n)"
proof -
  have m: "map wcoords (rev (take n tail) @ w' # front)
      = map wcoords (rev (take (Suc n) (wh # tail)) @ front)"
    using assms(2) by simp
  from assms(1) show ?thesis
    unfolding piece_result_def
    using overlaid_ok_mono[OF _ assms(3) m] by auto
qed

lemma junction_result_Cons:
  assumes "junction_result ww b1 b2 (w' # front) tail js1 out js' jn"
    and "wcoords w' = wcoords wh" and "set js1 \<subseteq> set js"
  shows "junction_result ww b1 b2 front (wh # tail) js (o' # out) js' jn"
proof (cases "jn \<in> set js'")
  case True
  then show ?thesis by (simp add: junction_result_def)
next
  case False
  with assms(1) obtain i where i: "i < length tail" "out ! i = hash_piece b1 b2 (tail ! i)"
    "overlaid_ok ww (rev (take i tail) @ w' # front) (tail ! i) (drop (Suc i) tail) js1"
    "jx jn = wx (tail ! i)" "jy jn = wy (tail ! i)"
    by (auto simp: junction_result_def)
  have m: "map wcoords (rev (take i tail) @ w' # front)
      = map wcoords (rev (take (Suc i) (wh # tail)) @ front)"
    using assms(2) by simp
  from overlaid_ok_mono[OF i(3) assms(3) m]
  have "overlaid_ok ww (rev (take (Suc i) (wh # tail)) @ front) ((wh # tail) ! Suc i)
      (drop (Suc (Suc i)) (wh # tail)) js" by simp
  with i have "Suc i < length (wh # tail) \<and> (o' # out) ! Suc i = hash_piece b1 b2 ((wh # tail) ! Suc i)
      \<and> overlaid_ok ww (rev (take (Suc i) (wh # tail)) @ front) ((wh # tail) ! Suc i)
          (drop (Suc (Suc i)) (wh # tail)) js
      \<and> jx jn = wx ((wh # tail) ! Suc i) \<and> jy jn = wy ((wh # tail) ! Suc i)"
    by simp
  then show ?thesis unfolding junction_result_def by blast
qed

lemma whm_loop_props:
  "\<exists>out js' j' used'.
     whm_loop ww b1 b2 front behind js j used = (rev front @ out, js', j', used')
     \<and> length out = length behind \<and> set js' \<subseteq> set js
     \<and> (\<forall>i < length behind. piece_result ww b1 b2 front behind js out i)
     \<and> (\<forall>jn \<in> set js. junction_result ww b1 b2 front behind js out js' jn)"
proof (induction behind arbitrary: front js j used)
  case Nil
  show ?case by (simp add: junction_result_def)
next
  case (Cons wh tail)
  show ?case
  proof (cases "wx wh < ww - 8")
    case False
    have "\<forall>i < length (wh # tail). piece_result ww b1 b2 front (wh # tail) js (wh # tail) i"
      by (simp add: piece_result_def)
    moreover have "\<forall>jn \<in> set js. junction_result ww b1 b2 front (wh # tail) js (wh # tail) js jn"
      by (simp add: junction_result_def)
    ultimately show ?thesis
      using whm_loop_stop[OF False, of b1 b2 front tail js j used] by blast
  next
    case lt: True
    show ?thesis
    proof (cases "hash_guard front wh tail \<and> junction_at js wh (find_j js wh j)")
      case hit: True
      let ?jf = "find_j js wh j"
      let ?js1 = "remove_junction js ?jf"
      let ?hw = "hash_piece b1 b2 wh"
      from Cons.IH[of "?hw # front" ?js1 ?jf "hash_used wh used"]
      obtain out js' j' used' where r:
        "whm_loop ww b1 b2 (?hw # front) tail ?js1 ?jf (hash_used wh used)
           = (rev (?hw # front) @ out, js', j', used')"
        and len: "length out = length tail" and sub: "set js' \<subseteq> set ?js1"
        and pr: "\<forall>i < length tail. piece_result ww b1 b2 (?hw # front) tail ?js1 out i"
        and jr: "\<forall>jn \<in> set ?js1. junction_result ww b1 b2 (?hw # front) tail ?js1 out js' jn"
        by blast
      have sub1: "set ?js1 \<subseteq> set js" by (rule set_remove_junction)
      from hit have jin: "js ! ?jf \<in> set js" and jxy: "jx (js ! ?jf) = wx wh" "jy (js ! ?jf) = wy wh"
        and jlen: "?jf < length js"
        by (simp_all add: junction_at_def)
      from hit lt jin jxy have ok0: "overlaid_ok ww front wh tail js"
        unfolding overlaid_ok_def by blast
      have eq: "whm_loop ww b1 b2 front (wh # tail) js j used
          = (rev front @ (?hw # out), js', j', used')"
        using hit lt r by (simp add: whm_loop_hit)
      have P: "\<forall>i < length (wh # tail). piece_result ww b1 b2 front (wh # tail) js (?hw # out) i"
      proof (intro allI impI)
        fix i assume i: "i < length (wh # tail)"
        show "piece_result ww b1 b2 front (wh # tail) js (?hw # out) i"
        proof (cases i)
          case 0
          with ok0 show ?thesis by (simp add: piece_result_def)
        next
          case (Suc n)
          with i pr have "piece_result ww b1 b2 (?hw # front) tail ?js1 out n" by simp
          from piece_result_Cons[OF this _ sub1, of wh ?hw] Suc show ?thesis by simp
        qed
      qed
      have J: "\<forall>jn \<in> set js. junction_result ww b1 b2 front (wh # tail) js (?hw # out) js' jn"
      proof
        fix jn assume jn: "jn \<in> set js"
        show "junction_result ww b1 b2 front (wh # tail) js (?hw # out) js' jn"
        proof (cases "jn = js ! ?jf")
          case True
          with jxy ok0 have "0 < length (wh # tail) \<and> (?hw # out) ! 0 = hash_piece b1 b2 ((wh # tail) ! 0)
              \<and> overlaid_ok ww (rev (take 0 (wh # tail)) @ front) ((wh # tail) ! 0)
                  (drop (Suc 0) (wh # tail)) js
              \<and> jx jn = wx ((wh # tail) ! 0) \<and> jy jn = wy ((wh # tail) ! 0)"
            by simp
          then show ?thesis unfolding junction_result_def by blast
        next
          case False
          from remove_junction_keeps[OF jn jlen False] jr
          have "junction_result ww b1 b2 (?hw # front) tail ?js1 out js' jn" by blast
          from junction_result_Cons[OF this _ sub1, of wh ?hw] show ?thesis by simp
        qed
      qed
      from eq len sub sub1 P J show ?thesis by force
    next
      case nohit: False
      define j1 where "j1 = (if hash_guard front wh tail then find_j js wh j else j)"
      have step: "whm_loop ww b1 b2 front (wh # tail) js j used
          = whm_loop ww b1 b2 (wh # front) tail js j1 used"
        using nohit lt by (auto simp: j1_def whm_loop_skip whm_loop_miss)
      from Cons.IH[of "wh # front" js j1 used]
      obtain out js' j' used' where r:
        "whm_loop ww b1 b2 (wh # front) tail js j1 used = (rev (wh # front) @ out, js', j', used')"
        and len: "length out = length tail" and sub: "set js' \<subseteq> set js"
        and pr: "\<forall>i < length tail. piece_result ww b1 b2 (wh # front) tail js out i"
        and jr: "\<forall>jn \<in> set js. junction_result ww b1 b2 (wh # front) tail js out js' jn"
        by blast
      have eq: "whm_loop ww b1 b2 front (wh # tail) js j used
          = (rev front @ (wh # out), js', j', used')"
        using step r by simp
      have P: "\<forall>i < length (wh # tail). piece_result ww b1 b2 front (wh # tail) js (wh # out) i"
      proof (intro allI impI)
        fix i assume i: "i < length (wh # tail)"
        show "piece_result ww b1 b2 front (wh # tail) js (wh # out) i"
        proof (cases i)
          case 0
          then show ?thesis by (simp add: piece_result_def)
        next
          case (Suc n)
          with i pr have "piece_result ww b1 b2 (wh # front) tail js out n" by simp
          from piece_result_Cons[OF this refl subset_refl, of wh] Suc show ?thesis by simp
        qed
      qed
      have J: "\<forall>jn \<in> set js. junction_result ww b1 b2 front (wh # tail) js (wh # out) js' jn"
      proof
        fix jn assume "jn \<in> set js"
        with jr have "junction_result ww b1 b2 (wh # front) tail js out js' jn" by blast
        from junction_result_Cons[OF this refl subset_refl, of wh] show
          "junction_result ww b1 b2 front (wh # tail) js (wh # out) js' jn" .
      qed
      from eq len sub P J show ?thesis by force
    qed
  qed
qed




lemma shift_junctions_in_range:
  "list_all (\<lambda>j. jx j < 20000) js \<Longrightarrow> shift_junctions js = tl js"
  by (induction js rule: shift_junctions.induct) simp_all

lemma remove_junction_in_range:
  assumes "list_all (\<lambda>j. jx j < 20000) js" "j < length js"
  shows "remove_junction js j = take j js @ drop (Suc j) js"
proof -
  from assms(1) have "list_all (\<lambda>j. jx j < 20000) (drop j js)"
    by (metis append_take_drop_id list_all_append)
  from shift_junctions_in_range[OF this] show ?thesis
    by (simp add: remove_junction_def drop_Suc tl_drop)
qed

lemma mset_remove_junction:
  assumes "list_all (\<lambda>j. jx j < 20000) js" "j < length js"
  shows "mset js = mset (remove_junction js j) + {#js ! j#}"
proof -
  have "js = take j js @ js ! j # drop (Suc j) js"
    using assms(2) by (simp add: id_take_nth_drop)
  then have "mset js = mset (take j js @ js ! j # drop (Suc j) js)" by simp
  then show ?thesis by (simp add: remove_junction_in_range[OF assms])
qed

lemma whm_loop_consumes:
  "list_all (\<lambda>j. jx j < 20000) js \<Longrightarrow> list_all (\<lambda>w. \<not> hasj w) behind \<Longrightarrow>
   \<exists>out js' j' used'.
     whm_loop ww b1 b2 front behind js j used = (rev front @ out, js', j', used')
     \<and> mset (map jcoords js) = mset (map jcoords js') + mset (map wcoords (filter hasj out))"
proof (induction behind arbitrary: front js j used)
  case Nil
  show ?case by simp
next
  case (Cons wh tail)
  from Cons.prems have nh: "\<not> hasj wh" and nt: "list_all (\<lambda>w. \<not> hasj w) tail" by simp_all
  show ?case
  proof (cases "wx wh < ww - 8")
    case False
    from Cons.prems(2) have f: "filter hasj (wh # tail) = []"
      by (simp add: list_all_iff filter_empty_conv)
    have "mset (map jcoords js)
        = mset (map jcoords js) + mset (map wcoords (filter hasj (wh # tail)))"
      by (simp only: f) simp
    with whm_loop_stop[OF False, of b1 b2 front tail js j used] show ?thesis
      by blast
  next
    case lt: True
    show ?thesis
    proof (cases "hash_guard front wh tail \<and> junction_at js wh (find_j js wh j)")
      case hit: True
      let ?jf = "find_j js wh j"
      let ?js1 = "remove_junction js ?jf"
      let ?hw = "hash_piece b1 b2 wh"
      from hit have jlen: "?jf < length js" and jc: "jcoords (js ! ?jf) = wcoords wh"
        by (simp_all add: junction_at_def jcoords_def wcoords_def)
      have r1: "list_all (\<lambda>j. jx j < 20000) ?js1"
        using Cons.prems(1) set_remove_junction[of js ?jf] by (auto simp: list_all_iff)
      from Cons.IH[OF r1 nt, of "?hw # front" ?jf "hash_used wh used"]
      obtain out js' j' used' where r:
        "whm_loop ww b1 b2 (?hw # front) tail ?js1 ?jf (hash_used wh used)
           = (rev (?hw # front) @ out, js', j', used')"
        and m: "mset (map jcoords ?js1) = mset (map jcoords js') + mset (map wcoords (filter hasj out))"
        by blast
      have eq: "whm_loop ww b1 b2 front (wh # tail) js j used
          = (rev front @ (?hw # out), js', j', used')"
        using hit lt r by (simp add: whm_loop_hit)
      have h: "hasj ?hw" by (simp add: hash_piece_def)
      from mset_remove_junction[OF Cons.prems(1) jlen]
      have "mset (map jcoords js) = mset (map jcoords ?js1) + {#jcoords (js ! ?jf)#}"
        by (metis (no_types, lifting) image_mset_single image_mset_union mset_map)
      with m jc h have "mset (map jcoords js)
          = mset (map jcoords js') + mset (map wcoords (filter hasj (?hw # out)))"
        by simp
      with eq show ?thesis by blast
    next
      case nohit: False
      define j1 where "j1 = (if hash_guard front wh tail then find_j js wh j else j)"
      have step: "whm_loop ww b1 b2 front (wh # tail) js j used
          = whm_loop ww b1 b2 (wh # front) tail js j1 used"
        using nohit lt by (auto simp: j1_def whm_loop_skip whm_loop_miss)
      from Cons.IH[OF Cons.prems(1) nt, of "wh # front" j1 used]
      obtain out js' j' used' where r:
        "whm_loop ww b1 b2 (wh # front) tail js j1 used = (rev (wh # front) @ out, js', j', used')"
        and m: "mset (map jcoords js) = mset (map jcoords js') + mset (map wcoords (filter hasj out))"
        by blast
      have eq: "whm_loop ww b1 b2 front (wh # tail) js j used
          = (rev front @ (wh # out), js', j', used')"
        using step r by simp
      from m nh have "mset (map jcoords js)
          = mset (map jcoords js') + mset (map wcoords (filter hasj (wh # out)))"
        by simp
      with eq show ?thesis by blast
    qed
  qed
qed

lemma mset_move_down: "mset (move_down lt e acc) = add_mset e (mset acc)"
  by (induction acc) simp_all

lemma mset_sort_fold:
  "mset (foldl (\<lambda>acc e. move_down lt e acc) acc xs) = mset acc + mset xs"
  by (induction xs arbitrary: acc) (simp_all add: mset_move_down)

lemma mset_insertion_sort: "mset (insertion_sort lt xs) = mset xs"
  by (simp add: insertion_sort_def mset_sort_fold)

lemma set_insertion_sort: "set (insertion_sort lt xs) = set xs"
  using mset_insertion_sort[of lt xs] by (metis set_mset_mset)

lemma move_down_sorted:
  fixes f :: "'a \<Rightarrow> int"
  assumes lt1: "\<And>a b. lt a b \<Longrightarrow> f a \<le> f b" and lt2: "\<And>a b. \<not> lt a b \<Longrightarrow> f b \<le> f a"
  shows "sorted (rev (map f acc)) \<Longrightarrow> sorted (rev (map f (move_down lt e acc)))"
proof (induction acc)
  case Nil
  show ?case by simp
next
  case (Cons p ps)
  from Cons.prems have s: "sorted (rev (map f ps))" and le: "\<forall>x \<in> set ps. f x \<le> f p"
    by (auto simp: sorted_append)
  show ?case
  proof (cases "lt e p")
    case True
    have "set (move_down lt e ps) = insert e (set ps)"
      using mset_move_down[of lt e ps] by (metis set_mset_mset set_mset_add_mset_insert)
    with le lt1[OF True] have "\<forall>x \<in> set (move_down lt e ps). f x \<le> f p" by auto
    with Cons.IH[OF s] True show ?thesis by (auto simp: sorted_append)
  next
    case False
    from lt2[OF False] le have "\<forall>x \<in> set (p # ps). f x \<le> f e" by auto
    with Cons.prems False show ?thesis by (auto simp: sorted_append)
  qed
qed

lemma sort_fold_sorted:
  fixes f :: "'a \<Rightarrow> int"
  assumes lt1: "\<And>a b. lt a b \<Longrightarrow> f a \<le> f b" and lt2: "\<And>a b. \<not> lt a b \<Longrightarrow> f b \<le> f a"
  shows "sorted (rev (map f acc)) \<Longrightarrow>
    sorted (rev (map f (foldl (\<lambda>acc e. move_down lt e acc) acc xs)))"
proof (induction xs arbitrary: acc)
  case Nil
  then show ?case by simp
next
  case (Cons x xs)
  from move_down_sorted[of lt f, OF lt1 lt2 Cons.prems, of x]
  have "sorted (rev (map f (move_down lt x acc)))" .
  from Cons.IH[OF this] show ?case by simp
qed

lemma insertion_sort_sorted:
  fixes f :: "'a \<Rightarrow> int"
  assumes lt1: "\<And>a b. lt a b \<Longrightarrow> f a \<le> f b" and lt2: "\<And>a b. \<not> lt a b \<Longrightarrow> f b \<le> f a"
  shows "sorted (map f (insertion_sort lt xs))"
  using sort_fold_sorted[of lt f "[]" xs, OF lt1 lt2]
  by (simp add: insertion_sort_def rev_map)

lemma sort_whites_sorted: "sorted (map wx (insertion_sort white_less ws))"
  by (rule insertion_sort_sorted) (auto simp: white_less_def)

lemma sort_junctions_sorted: "sorted (map jx (insertion_sort junction_less js))"
  by (rule insertion_sort_sorted) (auto simp: junction_less_def)

lemma set_shift_from: "set (shift_from ws) \<subseteq> set ws"
  by (induction ws rule: shift_from.induct) auto

lemma sorted_shift_from: "sorted (map wx ws) \<Longrightarrow> sorted (map wx (shift_from ws))"
proof (induction ws rule: shift_from.induct)
  case 1
  show ?case by simp
next
  case (2 r)
  show ?case by simp
next
  case (3 r r' rest)
  show ?case
  proof (cases "wx r < 20000")
    case False
    with "3.prems" show ?thesis by simp
  next
    case True
    from "3.prems" have s: "sorted (map wx (r' # rest))" by simp
    then have "\<forall>x \<in> set (r' # rest). wx r' \<le> wx x" by auto
    with set_shift_from[of "r' # rest"] have "\<forall>x \<in> set (shift_from (r' # rest)). wx r' \<le> wx x"
      by blast
    with "3.IH"[OF True s] True show ?thesis by simp
  qed
qed

lemma merge_whites_sorted:
  "sorted (map wx ws) \<Longrightarrow> sorted (map wx (fst (merge_whites ws used)))"
proof (induction ws used rule: merge_whites.induct)
  case (1 used)
  show ?case by simp
next
  case (2 w used)
  show ?case by simp
next
  case (3 w w2 rest used)
  show ?case
  proof (cases "wx w < 20000")
    case False
    with "3.prems" show ?thesis by (simp add: merge_whites_stop)
  next
    case lt: True
    show ?thesis
    proof (cases "mergeable w w2")
      case True
      let ?w' = "w\<lparr>data := Arena (and_rows (data w) (data w2))\<rparr>"
      from "3.prems" have "sorted (map wx (w2 # rest))" and le: "\<forall>x \<in> set (w2 # rest). wx w \<le> wx x"
        by auto
      from sorted_shift_from[OF this(1)] le set_shift_from[of "w2 # rest"]
      have "sorted (map wx (?w' # shift_from (w2 # rest)))" by auto
      from "3.IH"(1)[OF lt True this] show ?thesis
        by (simp add: merge_whites_join[OF lt True])
    next
      case False
      from "3.prems" have s: "sorted (map wx (w2 # rest))" and le: "wx w \<le> wx w2" by auto
      obtain m out where m: "fst (merge_whites (w2 # rest) used) = m # out" "wx m = wx w2"
        using merge_whites_head[of w2 rest used] by blast
      from "3.IH"(2)[OF lt False s] m le
      have "sorted (map wx (w # m # out))" by auto
      with m(1) show ?thesis by (simp add: merge_whites_skip[OF lt False])
    qed
  qed
qed

lemma merge_whites_no_hasj:
  "list_all (\<lambda>w. \<not> hasj w) ws \<Longrightarrow> list_all (\<lambda>w. \<not> hasj w) (fst (merge_whites ws used))"
proof (induction ws used rule: merge_whites.induct)
  case (1 used)
  show ?case by simp
next
  case (2 w used)
  then show ?case by simp
next
  case (3 w w2 rest used)
  show ?case
  proof (cases "wx w < 20000")
    case False
    with "3.prems" show ?thesis by (simp add: merge_whites_stop)
  next
    case lt: True
    show ?thesis
    proof (cases "mergeable w w2")
      case True
      let ?w' = "w\<lparr>data := Arena (and_rows (data w) (data w2))\<rparr>"
      from "3.prems" set_shift_from[of "w2 # rest"]
      have "list_all (\<lambda>w. \<not> hasj w) (?w' # shift_from (w2 # rest))"
        by (auto simp: list_all_iff)
      from "3.IH"(1)[OF lt True this] show ?thesis
        by (simp add: merge_whites_join[OF lt True])
    next
      case False
      from "3.prems" have "list_all (\<lambda>w. \<not> hasj w) (w2 # rest)" and "\<not> hasj w" by simp_all
      with "3.IH"(2)[OF lt False] show ?thesis
        by (simp add: merge_whites_skip[OF lt False])
    qed
  qed
qed

lemma add_white_no_hasj: "no_hasj ws \<Longrightarrow> no_hasj (add_white x y h d ws)"
  by (simp add: add_white_def)

lemma replace_white_2_no_hasj:
  "no_hasj ws \<Longrightarrow> no_hasj (replace_white_2 tx ty x y h d ws)"
  by (induction ws) auto

lemma case2_steps_no_hasj: "no_hasj ws \<Longrightarrow> no_hasj (case2_steps line ks ws)"
  by (induction ks arbitrary: ws) (simp_all add: add_white_no_hasj)

lemma one_close_no_hasj: "no_hasj ws \<Longrightarrow> no_hasj (snd (one_close line line2 n m ws))"
  by (simp add: one_close_def Let_def add_white_2_def add_white_no_hasj
      replace_white_2_no_hasj case2_steps_no_hasj split: option.split)

lemma close_pair_no_hasj: "no_hasj ws \<Longrightarrow> no_hasj (snd (close_pair line i line2 j ws))"
  by (simp add: close_pair_def one_close_no_hasj)

lemma scan_line2_no_hasj:
  "no_hasj ws \<Longrightarrow> scan_line2 cands line i ws = Some (line', ws') \<Longrightarrow> no_hasj ws'"
proof (induction cands arbitrary: line ws)
  case Nil
  then show ?case by simp
next
  case (Cons c rest)
  show ?case
  proof (cases "startx c < endpoint_x line i + 3")
    case False
    with Cons.prems show ?thesis by simp
  next
    case True
    obtain l1 w1 where p1: "close_pair line i c False ws = (l1, w1)" by force
    obtain l2 w2 where p2: "close_pair l1 i c True w1 = (l2, w2)" by force
    from close_pair_no_hasj[OF Cons.prems(1), of line i c False] p1 have "no_hasj w1" by simp
    from close_pair_no_hasj[OF this, of l1 i c True] p2 have n2: "no_hasj w2" by simp
    from Cons.prems(2) True p1 p2 have "scan_line2 rest l2 i w2 = Some (line', ws')" by simp
    from Cons.IH[OF n2 this] show ?thesis .
  qed
qed

lemma close_line_no_hasj:
  "no_hasj ws \<Longrightarrow> close_line cands line ws = Some (line', ws') \<Longrightarrow> no_hasj ws'"
  by (auto simp: close_line_def split: option.splits dest: scan_line2_no_hasj)

lemma close_loop_no_hasj:
  "no_hasj ws \<Longrightarrow> close_loop lines cands ws = Some (lines', ws') \<Longrightarrow> no_hasj ws'"
proof (induction lines arbitrary: cands ws lines')
  case Nil
  then show ?case by simp
next
  case (Cons line rest)
  let ?cands = "dropWhile (\<lambda>f. endx f < startx line - 3) cands"
  from Cons.prems(2) obtain l1 w1 where cl: "close_line ?cands line ws = Some (l1, w1)"
    by (auto split: option.splits)
  with Cons.prems(2) obtain rest' where rl: "close_loop rest ?cands w1 = Some (rest', ws')"
    by (auto split: option.splits)
  from close_line_no_hasj[OF Cons.prems(1) cl] have "no_hasj w1" .
  from Cons.IH[OF this rl] show ?case .
qed

lemma norm_pieces_no_hasj: "no_hasj (norm_pieces line)"
  by (cases "newtype line")
     (simp_all add: norm_pieces_def norm_glitch_def norm_endpoint_def add_white_def)

lemma norm_whites_no_hasj: "no_hasj (norm_whites lines [])"
  using norm_pieces_no_hasj by (auto simp: norm_whites_concat list_all_iff)

lemma near_self: "near j (jx j) (jy j)"
  by (simp add: near_def)

lemma far_apart_distinct: "far_apart js \<Longrightarrow> distinct (map jcoords js)"
proof -
  assume fa: "far_apart js"
  have "\<forall>i < length js. \<forall>k < length js. i \<noteq> k \<longrightarrow> jcoords (js ! i) \<noteq> jcoords (js ! k)"
  proof (intro allI impI)
    fix i k assume i: "i < length js" and k: "k < length js" and ne: "i \<noteq> k"
    show "jcoords (js ! i) \<noteq> jcoords (js ! k)"
    proof
      assume e: "jcoords (js ! i) = jcoords (js ! k)"
      then have x: "jx (js ! i) = jx (js ! k)" and y: "jy (js ! i) = jy (js ! k)"
        by (simp_all add: jcoords_def)
      show False
      proof (cases "k < i")
        case True
        with fa i have "\<not> near (js ! k) (jx (js ! i)) (jy (js ! i))"
          by (simp add: far_apart_def)
        with x y near_self[of "js ! k"] show False by simp
      next
        case False
        with ne have "i < k" by simp
        with fa k have "\<not> near (js ! i) (jx (js ! k)) (jy (js ! k))"
          by (simp add: far_apart_def)
        with x y near_self[of "js ! i"] show False by simp
      qed
    qed
  qed
  then show ?thesis by (simp add: distinct_conv_nth)
qed

lemma add_endpoint_range:
  "list_all (\<lambda>j. jx j < 20000) js \<Longrightarrow> x < 20000 \<Longrightarrow>
   list_all (\<lambda>j. jx j < 20000) (add_endpoint js x y)"
  by (simp add: add_endpoint_def split: option.split)

lemma find_junctions_range:
  "list_all (\<lambda>j. jx j < 20000) js \<Longrightarrow>
   list_all (\<lambda>l. startx l < 20000 \<and> endx l < 20000) lines \<Longrightarrow>
   list_all (\<lambda>j. jx j < 20000) (find_junctions lines js)"
  by (induction lines arbitrary: js) (simp_all add: add_endpoint_range)

lemma white_hash_merge_props:
  assumes "white_hash_merge ww b1 b2 ws js used = (ws', js', used')"
  shows "length ws' = length ws \<and> set js' \<subseteq> set js
     \<and> (\<forall>i < length ws. piece_result ww b1 b2 [] ws js ws' i)
     \<and> (\<forall>jn \<in> set js. junction_result ww b1 b2 [] ws js ws' js' jn)"
proof -
  from whm_loop_props[of ww b1 b2 "[]" ws js 0 used]
  obtain out js1 j1 used1 where r: "whm_loop ww b1 b2 [] ws js 0 used = (rev [] @ out, js1, j1, used1)"
    and p: "length out = length ws" "set js1 \<subseteq> set js"
      "\<forall>i < length ws. piece_result ww b1 b2 [] ws js out i"
      "\<forall>jn \<in> set js. junction_result ww b1 b2 [] ws js out js1 jn"
    by blast
  from r assms have "ws' = out" "js' = js1" by (simp_all add: white_hash_merge_def)
  with p show ?thesis by simp
qed

lemma white_hash_merge_consumes:
  assumes "list_all (\<lambda>j. jx j < 20000) js" "list_all (\<lambda>w. \<not> hasj w) ws"
    and "white_hash_merge ww b1 b2 ws js used = (ws', js', used')"
  shows "mset (map jcoords js) = mset (map jcoords js') + mset (map wcoords (filter hasj ws'))"
proof -
  from whm_loop_consumes[OF assms(1,2), of ww b1 b2 "[]" 0 used]
  obtain out js1 j1 used1 where r: "whm_loop ww b1 b2 [] ws js 0 used = (rev [] @ out, js1, j1, used1)"
    and m: "mset (map jcoords js) = mset (map jcoords js1) + mset (map wcoords (filter hasj out))"
    by blast
  from r assms(3) have "ws' = out" "js' = js1" by (simp_all add: white_hash_merge_def)
  with m show ?thesis by simp
qed

lemma piece_result_top:
  assumes "piece_result ww b1 b2 [] ws js ws' k"
  shows "ws' ! k = ws ! k
     \<or> (ws' ! k = hash_piece b1 b2 (ws ! k) \<and> wx (ws ! k) < ww - 8
        \<and> hash_guard (rev (take k ws)) (ws ! k) (drop (Suc k) ws)
        \<and> (\<exists>jn \<in> set js. jx jn = wx (ws ! k) \<and> jy jn = wy (ws ! k)))"
  using assms by (auto simp: piece_result_def overlaid_ok_def)

lemma init_walls_Some:
  assumes "init_walls endrec ww b1 b2 lines = Some (lines', ws, js)"
  shows "\<exists>ws0 ws1 used used'.
     close_whites endrec lines (norm_whites lines []) = Some (lines', ws0)
     \<and> merge_whites (insertion_sort white_less ws0) 0 = (ws1, used)
     \<and> white_hash_merge ww b1 b2 ws1 (insertion_sort junction_less (find_junctions lines [])) used
         = (ws, js, used')"
  using assms
  by (auto simp: init_walls_def init_whites_def split: option.splits prod.splits)

lemma init_walls_stages:
  assumes "init_walls endrec ww b1 b2 lines = Some (lines', ws, js)"
  shows "\<exists>ws1 used used'.
     sorted (map wx ws1) \<and> list_all (\<lambda>w. \<not> hasj w) ws1
     \<and> white_hash_merge ww b1 b2 ws1 (insertion_sort junction_less (find_junctions lines [])) used
         = (ws, js, used')"
proof -
  from init_walls_Some[OF assms] obtain ws0 ws1 used used' where
    c: "close_whites endrec lines (norm_whites lines []) = Some (lines', ws0)"
    and m: "merge_whites (insertion_sort white_less ws0) 0 = (ws1, used)"
    and h: "white_hash_merge ww b1 b2 ws1 (insertion_sort junction_less (find_junctions lines [])) used
         = (ws, js, used')"
    by blast
  from c have "list_all (\<lambda>w. \<not> hasj w) ws0"
    using close_loop_no_hasj[OF norm_whites_no_hasj[of lines]]
    by (simp add: close_whites_def)
  then have "list_all (\<lambda>w. \<not> hasj w) (insertion_sort white_less ws0)"
    by (simp add: list_all_iff set_insertion_sort)
  from merge_whites_no_hasj[OF this, of 0] m have nh: "list_all (\<lambda>w. \<not> hasj w) ws1" by simp
  from merge_whites_sorted[OF sort_whites_sorted, of ws0 0] m have "sorted (map wx ws1)" by simp
  with nh h show ?thesis by blast
qed

lemma init_walls_total:
  assumes "endrec_beyond endrec lines"
  shows "init_walls endrec ww b1 b2 lines \<noteq> None"
proof -
  let ?ls = "map set_defaults lines"
  have "\<forall>l \<in> set ?ls. \<not> endx (last (?ls @ [endrec])) < startx l - 3
      \<and> \<not> startx (last (?ls @ [endrec])) < startx l + 3
      \<and> \<not> startx (last (?ls @ [endrec])) < endx l + 3"
    using assms by (auto simp: endrec_beyond_def list_all_iff set_defaults_def)
  from close_loop_total[OF _ this, of "norm_whites lines []"]
  have "close_whites endrec lines (norm_whites lines []) \<noteq> None"
    by (simp add: close_whites_def)
  then show ?thesis
    by (auto simp: init_walls_def init_whites_def split: option.splits prod.splits)
qed


text \<open>
  C10. \<^verbatim>\<open>white_hash_merge\<close> leaves every piece whose x is at most 8 or at least
  \<^verbatim>\<open>worldwidth - 8\<close> exactly as it was (position, height, bitmap and \<^verbatim>\<open>hasj\<close> flag),
  whatever its height, its neighbours and the junctions, and every junction whose x is at
  most 8 or at least \<^verbatim>\<open>worldwidth - 8\<close> is still in the junction array afterwards: no
  junction is removed on account of such a piece. (\<^verbatim>\<open>worldwidth\<close> is at most 20005, so
  that the loops end at the sentinels, as everywhere below.)
\<close>

theorem edge_pieces_never_overlaid:
  "ww \<le> 20005 \<and> white_hash_merge ww b1 b2 ws js used = (ws', js', used') \<longrightarrow>
     length ws' = length ws
     \<and> (\<forall>k < length ws. wx (ws ! k) \<le> 8 \<or> wx (ws ! k) \<ge> ww - 8 \<longrightarrow> ws' ! k = ws ! k)
     \<and> (\<forall>jn \<in> set js. jx jn \<le> 8 \<or> jx jn \<ge> ww - 8 \<longrightarrow> jn \<in> set js')"
proof
  assume "ww \<le> 20005 \<and> white_hash_merge ww b1 b2 ws js used = (ws', js', used')"
  then have h: "white_hash_merge ww b1 b2 ws js used = (ws', js', used')" by simp
  from white_hash_merge_props[OF h] have len: "length ws' = length ws"
    and pr: "\<forall>i < length ws. piece_result ww b1 b2 [] ws js ws' i"
    and jr: "\<forall>jn \<in> set js. junction_result ww b1 b2 [] ws js ws' js' jn"
    by blast+
  have P: "\<forall>k < length ws. wx (ws ! k) \<le> 8 \<or> wx (ws ! k) \<ge> ww - 8 \<longrightarrow> ws' ! k = ws ! k"
  proof (intro allI impI)
    fix k assume k: "k < length ws" and e: "wx (ws ! k) \<le> 8 \<or> wx (ws ! k) \<ge> ww - 8"
    from pr k have "piece_result ww b1 b2 [] ws js ws' k" by blast
    from piece_result_top[OF this] e show "ws' ! k = ws ! k"
      by (auto simp: hash_guard_def)
  qed
  have J: "\<forall>jn \<in> set js. jx jn \<le> 8 \<or> jx jn \<ge> ww - 8 \<longrightarrow> jn \<in> set js'"
  proof (intro ballI impI)
    fix jn assume jn: "jn \<in> set js" and e: "jx jn \<le> 8 \<or> jx jn \<ge> ww - 8"
    from jr jn have "junction_result ww b1 b2 [] ws js ws' js' jn" by blast
    with e show "jn \<in> set js'"
      by (auto simp: junction_result_def overlaid_ok_def hash_guard_def)
  qed
  from len P J show "length ws' = length ws
     \<and> (\<forall>k < length ws. wx (ws ! k) \<le> 8 \<or> wx (ws ! k) \<ge> ww - 8 \<longrightarrow> ws' ! k = ws ! k)
     \<and> (\<forall>jn \<in> set js. jx jn \<le> 8 \<or> jx jn \<ge> ww - 8 \<longrightarrow> jn \<in> set js')"
    by blast
qed

theorem edge_pieces_never_overlaid_witness:
  "fst (white_hash_merge 1000 0xAAAAAAAA 0x55555555
     [\<lparr>wx = 5, wy = 10, hasj = False, ht = 6, data = Static generictop\<rparr>,
      \<lparr>wx = 300, wy = 50, hasj = False, ht = 6, data = Static generictop\<rparr>,
      \<lparr>wx = 995, wy = 50, hasj = False, ht = 6, data = Static sbot\<rparr>]
     [\<lparr>jx = 5, jy = 10\<rparr>, \<lparr>jx = 300, jy = 50\<rparr>, \<lparr>jx = 995, jy = 50\<rparr>] 0) ! 0
   = \<lparr>wx = 5, wy = 10, hasj = False, ht = 6, data = Static generictop\<rparr>
   \<and> fst (white_hash_merge 1000 0xAAAAAAAA 0x55555555
     [\<lparr>wx = 5, wy = 10, hasj = False, ht = 6, data = Static generictop\<rparr>,
      \<lparr>wx = 300, wy = 50, hasj = False, ht = 6, data = Static generictop\<rparr>,
      \<lparr>wx = 995, wy = 50, hasj = False, ht = 6, data = Static sbot\<rparr>]
     [\<lparr>jx = 5, jy = 10\<rparr>, \<lparr>jx = 300, jy = 50\<rparr>, \<lparr>jx = 995, jy = 50\<rparr>] 0) ! 2
   = \<lparr>wx = 995, wy = 50, hasj = False, ht = 6, data = Static sbot\<rparr>
   \<and> \<lparr>jx = 5, jy = 10\<rparr> \<in> set (fst (snd (white_hash_merge 1000 0xAAAAAAAA 0x55555555
     [\<lparr>wx = 5, wy = 10, hasj = False, ht = 6, data = Static generictop\<rparr>,
      \<lparr>wx = 300, wy = 50, hasj = False, ht = 6, data = Static generictop\<rparr>,
      \<lparr>wx = 995, wy = 50, hasj = False, ht = 6, data = Static sbot\<rparr>]
     [\<lparr>jx = 5, jy = 10\<rparr>, \<lparr>jx = 300, jy = 50\<rparr>, \<lparr>jx = 995, jy = 50\<rparr>] 0)))
   \<and> \<lparr>jx = 995, jy = 50\<rparr> \<in> set (fst (snd (white_hash_merge 1000 0xAAAAAAAA 0x55555555
     [\<lparr>wx = 5, wy = 10, hasj = False, ht = 6, data = Static generictop\<rparr>,
      \<lparr>wx = 300, wy = 50, hasj = False, ht = 6, data = Static generictop\<rparr>,
      \<lparr>wx = 995, wy = 50, hasj = False, ht = 6, data = Static sbot\<rparr>]
     [\<lparr>jx = 5, jy = 10\<rparr>, \<lparr>jx = 300, jy = 50\<rparr>, \<lparr>jx = 995, jy = 50\<rparr>] 0)))"
proof -
  let ?ws = "[\<lparr>wx = 5, wy = 10, hasj = False, ht = 6, data = Static generictop\<rparr>,
      \<lparr>wx = 300, wy = 50, hasj = False, ht = 6, data = Static generictop\<rparr>,
      \<lparr>wx = 995, wy = 50, hasj = False, ht = 6, data = Static sbot\<rparr>]"
  let ?js = "[\<lparr>jx = 5, jy = 10\<rparr>, \<lparr>jx = 300, jy = 50\<rparr>, \<lparr>jx = 995, jy = 50\<rparr>]"
  let ?r = "white_hash_merge 1000 0xAAAAAAAA 0x55555555 ?ws ?js 0"
  have w: "(1000::int) \<le> 20005" by simp
  have r: "?r = (fst ?r, fst (snd ?r), snd (snd ?r))" by simp
  have k0: "0 < length ?ws \<and> (wx (?ws ! 0) \<le> 8 \<or> wx (?ws ! 0) \<ge> 1000 - 8)" by simp
  have k2: "2 < length ?ws \<and> (wx (?ws ! 2) \<le> 8 \<or> wx (?ws ! 2) \<ge> 1000 - 8)" by simp
  have j0: "\<lparr>jx = 5, jy = 10\<rparr> \<in> set ?js
      \<and> (jx \<lparr>jx = 5, jy = 10\<rparr> \<le> 8 \<or> jx \<lparr>jx = 5, jy = 10\<rparr> \<ge> 1000 - 8)" by simp
  have j2: "\<lparr>jx = 995, jy = 50\<rparr> \<in> set ?js
      \<and> (jx \<lparr>jx = 995, jy = 50\<rparr> \<le> 8 \<or> jx \<lparr>jx = 995, jy = 50\<rparr> \<ge> 1000 - 8)" by simp
  from edge_pieces_never_overlaid[of 1000 "0xAAAAAAAA" "0x55555555" ?ws ?js 0
      "fst ?r" "fst (snd ?r)" "snd (snd ?r)"] w r
  have a: "\<forall>k < length ?ws. wx (?ws ! k) \<le> 8 \<or> wx (?ws ! k) \<ge> 1000 - 8 \<longrightarrow> fst ?r ! k = ?ws ! k"
    and b: "\<forall>jn \<in> set ?js. jx jn \<le> 8 \<or> jx jn \<ge> 1000 - 8 \<longrightarrow> jn \<in> set (fst (snd ?r))"
    by blast+
  from a k0 have "fst ?r ! 0 = ?ws ! 0" by blast
  moreover from a k2 have "fst ?r ! 2 = ?ws ! 2" by blast
  moreover from b j0 have "\<lparr>jx = 5, jy = 10\<rparr> \<in> set (fst (snd ?r))" by blast
  moreover from b j2 have "\<lparr>jx = 995, jy = 50\<rparr> \<in> set (fst (snd ?r))" by blast
  ultimately show ?thesis by simp
qed





text \<open>
  The converse fails even for pieces of height 6 inside the world: the scan for the junction
  of a piece stops at the first junction, from where the previous scan left off, whose y
  equals the piece's, also when that junction lies to the left of the piece. An ESE wall from
  (100, 50) to (150, 75) and an S wall from (300, 50) to (300, 100): the piece at (300, 50)
  has no neighbour and sits on the junction (300, 50), but the scan stops at the junction
  (100, 50) of the ESE wall's start, which no piece consumes; the piece is not overlaid and the
  junction (300, 50) stays in the array.
\<close>

theorem white_hash_merge_stops_at_same_row_junction:
  "init_walls endrec_far 1000 0xAAAAAAAA 0x55555555 [wall_ESE_100, wall_S_300]
   = Some ([wall_ESE_100\<lparr>h1 := 12, h2 := 49\<rparr>, wall_S_300\<lparr>h1 := 6, h2 := 50\<rparr>],
       [\<lparr>wx = 143, wy = 73, hasj = False, ht = 4, data = Static eseglitch\<rparr>,
        \<lparr>wx = 150, wy = 75, hasj = True, ht = 6,
          data = Arena [32768, 49152, 18432, 3072, 1152, 192]\<rparr>,
        \<lparr>wx = 300, wy = 50, hasj = False, ht = 6, data = Static generictop\<rparr>,
        \<lparr>wx = 300, wy = 100, hasj = True, ht = 6,
          data = Arena [10880, 13632, 4736, 832, 256, 0]\<rparr>],
       [\<lparr>jx = 100, jy = 50\<rparr>, \<lparr>jx = 300, jy = 50\<rparr>])"
  by code_simp

text \<open>
  C5. Every junction is consumed by at most one overlay. In \<^verbatim>\<open>white_hash_merge\<close>, started
  on pieces without \<^verbatim>\<open>hasj\<close> and junctions in front of the sentinel, the junctions before
  the pass are, as a multiset of positions, the junctions after it together with the positions
  of the overlaid pieces: each overlay removes one junction, the one at its position. After
  \<^verbatim>\<open>init_walls\<close> (wall coordinates below 20000, \<^verbatim>\<open>worldwidth\<close> at most 20005) no two
  pieces with \<^verbatim>\<open>hasj\<close> set share their (x, y), and the remaining junctions have distinct
  positions. \<^verbatim>\<open>init_walls\<close> returns whenever the terminating record lies to the right of
  all walls.
\<close>

theorem junctions_consumed_once:
  "(ww \<le> 20005 \<and> list_all (\<lambda>l. startx l < 20000 \<and> endx l < 20000) lines
      \<and> init_walls endrec ww b1 b2 lines = Some (lines', ws, js) \<longrightarrow>
        distinct (map wcoords (filter hasj ws))
        \<and> distinct (map jcoords js)
        \<and> mset (map jcoords (find_junctions lines []))
            = mset (map jcoords js) + mset (map wcoords (filter hasj ws)))
   \<and> (ww \<le> 20005 \<and> list_all (\<lambda>j. jx j < 20000) js0 \<and> list_all (\<lambda>w. \<not> hasj w) ws0
        \<and> white_hash_merge ww b1 b2 ws0 js0 used = (ws0', js0', used') \<longrightarrow>
        mset (map jcoords js0)
          = mset (map jcoords js0') + mset (map wcoords (filter hasj ws0')))
   \<and> (endrec_beyond endrec lines \<longrightarrow> init_walls endrec ww b1 b2 lines \<noteq> None)"
proof -
  have p1: "ww \<le> 20005 \<and> list_all (\<lambda>l. startx l < 20000 \<and> endx l < 20000) lines
      \<and> init_walls endrec ww b1 b2 lines = Some (lines', ws, js) \<longrightarrow>
        distinct (map wcoords (filter hasj ws))
        \<and> distinct (map jcoords js)
        \<and> mset (map jcoords (find_junctions lines []))
            = mset (map jcoords js) + mset (map wcoords (filter hasj ws))"
  proof (rule impI)
  assume a: "ww \<le> 20005 \<and> list_all (\<lambda>l. startx l < 20000 \<and> endx l < 20000) lines
      \<and> init_walls endrec ww b1 b2 lines = Some (lines', ws, js)"
  let ?js0 = "insertion_sort junction_less (find_junctions lines [])"
  from init_walls_stages[of endrec ww b1 b2 lines lines' ws js] a
  obtain ws1 used1 used1' where nh: "list_all (\<lambda>w. \<not> hasj w) ws1"
    and h: "white_hash_merge ww b1 b2 ws1 ?js0 used1 = (ws, js, used1')"
    by blast
  from a have "list_all (\<lambda>j. jx j < 20000) (find_junctions lines [])"
    using find_junctions_range[of "[]" lines] by simp
  then have rng: "list_all (\<lambda>j. jx j < 20000) ?js0"
    by (simp add: list_all_iff set_insertion_sort)
  from white_hash_merge_consumes[OF rng nh h]
  have m: "mset (map jcoords ?js0) = mset (map jcoords js) + mset (map wcoords (filter hasj ws))" .
  have ms: "mset (map jcoords ?js0) = mset (map jcoords (find_junctions lines []))"
    using mset_insertion_sort[of junction_less "find_junctions lines []"]
    by (metis mset_map)
  have "far_apart (find_junctions lines [])"
    by (rule far_apart_find_junctions) (simp add: far_apart_def)
  then have d: "distinct (map jcoords (find_junctions lines []))" by (rule far_apart_distinct)
  from m ms have "mset (map jcoords (find_junctions lines []))
      = mset (map jcoords js @ map wcoords (filter hasj ws))"
    by simp
  with d have "distinct (map jcoords js @ map wcoords (filter hasj ws))"
    by (metis mset_eq_imp_distinct_iff)
  then have "distinct (map wcoords (filter hasj ws))" "distinct (map jcoords js)" by simp_all
  with m ms show "distinct (map wcoords (filter hasj ws))
        \<and> distinct (map jcoords js)
        \<and> mset (map jcoords (find_junctions lines []))
            = mset (map jcoords js) + mset (map wcoords (filter hasj ws))"
    by simp
  qed
  have p2: "ww \<le> 20005 \<and> list_all (\<lambda>j. jx j < 20000) js0 \<and> list_all (\<lambda>w. \<not> hasj w) ws0
        \<and> white_hash_merge ww b1 b2 ws0 js0 used = (ws0', js0', used') \<longrightarrow>
        mset (map jcoords js0)
          = mset (map jcoords js0') + mset (map wcoords (filter hasj ws0'))"
    using white_hash_merge_consumes by blast
  have p3: "endrec_beyond endrec lines \<longrightarrow> init_walls endrec ww b1 b2 lines \<noteq> None"
    using init_walls_total by blast
  from p1 p2 p3 show ?thesis by blast
qed

theorem junctions_consumed_once_witness:
  "distinct (map wcoords (filter hasj
      [\<lparr>wx = 143, wy = 73, hasj = False, ht = 4, data = Static eseglitch\<rparr>,
        \<lparr>wx = 150, wy = 75, hasj = True, ht = 6,
          data = Arena [32768, 49152, 18432, 3072, 1152, 192]\<rparr>,
        \<lparr>wx = 300, wy = 50, hasj = False, ht = 6, data = Static generictop\<rparr>,
        \<lparr>wx = 300, wy = 100, hasj = True, ht = 6,
          data = Arena [10880, 13632, 4736, 832, 256, 0]\<rparr>]))
   \<and> mset (map jcoords (find_junctions [wall_ESE_100, wall_S_300] []))
       = mset (map jcoords [\<lparr>jx = 100, jy = 50\<rparr>, \<lparr>jx = 300, jy = 50\<rparr>])
         + {#(150, 75), (300, 100)#}
   \<and> init_walls endrec_far 1000 0xAAAAAAAA 0x55555555 [wall_ESE_100, wall_S_300] \<noteq> None"
proof -
  let ?ws = "[\<lparr>wx = 143, wy = 73, hasj = False, ht = 4, data = Static eseglitch\<rparr>,
        \<lparr>wx = 150, wy = 75, hasj = True, ht = 6,
          data = Arena [32768, 49152, 18432, 3072, 1152, 192 :: 16 word]\<rparr>,
        \<lparr>wx = 300, wy = 50, hasj = False, ht = 6, data = Static generictop\<rparr>,
        \<lparr>wx = 300, wy = 100, hasj = True, ht = 6,
          data = Arena [10880, 13632, 4736, 832, 256, 0]\<rparr>]"
  have run: "init_walls endrec_far 1000 0xAAAAAAAA 0x55555555 [wall_ESE_100, wall_S_300]
   = Some ([wall_ESE_100\<lparr>h1 := 12, h2 := 49\<rparr>, wall_S_300\<lparr>h1 := 6, h2 := 50\<rparr>],
       ?ws, [\<lparr>jx = 100, jy = 50\<rparr>, \<lparr>jx = 300, jy = 50\<rparr>])"
    by code_simp
  have w: "(1000::int) \<le> 20005" by simp
  have r: "list_all (\<lambda>l. startx l < 20000 \<and> endx l < 20000) [wall_ESE_100, wall_S_300]"
    by (simp add: wall_ESE_100_def wall_S_300_def)
  have e: "endrec_beyond endrec_far [wall_ESE_100, wall_S_300]"
    by (simp add: endrec_beyond_def endrec_far_def wall_ESE_100_def wall_S_300_def)
  from junctions_consumed_once[of 1000 "[wall_ESE_100, wall_S_300]" endrec_far
      "0xAAAAAAAA" "0x55555555" "[wall_ESE_100\<lparr>h1 := 12, h2 := 49\<rparr>, wall_S_300\<lparr>h1 := 6, h2 := 50\<rparr>]"
      ?ws "[\<lparr>jx = 100, jy = 50\<rparr>, \<lparr>jx = 300, jy = 50\<rparr>]"] w r run e
  have "distinct (map wcoords (filter hasj ?ws))
     \<and> mset (map jcoords (find_junctions [wall_ESE_100, wall_S_300] []))
            = mset (map jcoords [\<lparr>jx = 100, jy = 50\<rparr>, \<lparr>jx = 300, jy = 50\<rparr>])
              + mset (map wcoords (filter hasj ?ws))
     \<and> init_walls endrec_far 1000 0xAAAAAAAA 0x55555555 [wall_ESE_100, wall_S_300] \<noteq> None"
    by blast
  then show ?thesis by (simp add: wcoords_def)
qed

end
